theory Spec2Isabelle
  imports Complex_Main
begin

section \<open>Chunk validator (src/lib/chunkValidator.ts)\<close>

text \<open>
  JavaScript strings are modelled as \<^typ>\<open>string\<close>; a character stands for a code unit
  below 256. \<open>String.prototype.trim\<close> removes the white space and line terminators of
  ECMAScript at both ends; those below 256 are TAB, LF, VT, FF, CR, SPACE and NBSP.
\<close>

definition isWhiteSpace :: "char \<Rightarrow> bool" where
  "isWhiteSpace c = (of_char c \<in> {9, 10, 11, 12, 13, 32, 160 :: nat})"

definition trim :: "string \<Rightarrow> string" where
  "trim s = rev (dropWhile isWhiteSpace (rev (dropWhile isWhiteSpace s)))"

record ChunkValidator =
  expectedText :: string

record ChunkValidationResult =
  isValid :: bool
  newPosition :: nat
  reason :: string

definition newChunkValidator :: ChunkValidator where
  "newChunkValidator = \<lparr>expectedText = ''''\<rparr>"

definition setExpectedText :: "string \<Rightarrow> ChunkValidator \<Rightarrow> ChunkValidator" where
  "setExpectedText text v = v\<lparr>expectedText := trim text\<rparr>"

definition reset :: "ChunkValidator \<Rightarrow> ChunkValidator" where
  "reset v = v\<lparr>expectedText := ''''\<rparr>"

definition isActive :: "ChunkValidator \<Rightarrow> bool" where
  "isActive v = (expectedText v \<noteq> '''')"

text \<open>
  \<open>validateChunk\<close> reads the validator and returns a result; it changes nothing. The
  \<open>reason\<close> strings are the source's template literals: \<open>doubleQuote\<close> is the
  character that encloses the quoted prefixes, and \<open>substring(0, n)\<close> is
  \<^term>\<open>take n\<close>.
\<close>

definition doubleQuote :: string where
  "doubleQuote = [CHR 0x22]"

definition validateChunk :: "ChunkValidator \<Rightarrow> string \<Rightarrow> ChunkValidationResult" where
  "validateChunk v incomingText =
     (if expectedText v = '''' then
        \<lparr>isValid = False, newPosition = 0,
         reason = ''No expected text set - rejecting all chunks (validator reset or idle)''\<rparr>
      else
        let cleanIncomingText = trim incomingText in
        if cleanIncomingText = '''' then
          \<lparr>isValid = False, newPosition = 0, reason = ''Empty or whitespace-only chunk''\<rparr>
        else if cleanIncomingText = expectedText v then
          \<lparr>isValid = True, newPosition = 0,
           reason = ''Valid chunk matches expected text batch: '' @ doubleQuote
                    @ take 50 (expectedText v) @ ''...'' @ doubleQuote\<rparr>
        else
          \<lparr>isValid = False, newPosition = 0,
           reason = ''Text batch mismatch. Expected: '' @ doubleQuote @ take 30 (expectedText v)
                    @ ''...'' @ doubleQuote @ '', Got: '' @ doubleQuote
                    @ take 30 cleanIncomingText @ ''...'' @ doubleQuote\<rparr>)"

section \<open>Sequence buffer (StreamingAudioBuffer)\<close>

text \<open>
  \<open>chunkIndex\<close> is a JavaScript number, modelled as a real: the callers pass the position
  of a text chunk in its batch, but \<open>addAudioChunk\<close> accepts any number, negative and
  fractional ones included (\<open>NaN\<close> and the infinities are outside the model).
  \<open>nextExpectedIndex\<close> starts at 0 and is only ever incremented, so it is a natural
  number; the source compares it with an index by \<open>===\<close>, here after the embedding
  \<^term>\<open>real\<close>. \<open>Date.now()\<close> is an argument of \<open>addAudioChunk\<close>, whose other arguments
  \<open>audioData\<close>, \<open>chunkIndex\<close> and \<open>isComplete\<close> are written \<open>a\<close>, \<open>i\<close> and \<open>f\<close>. The two
  callbacks are modelled as the list of events a call delivers, in order; console logging
  is not modelled.
\<close>

record BufferedAudioChunk =
  audioData :: "string list"
  chunkIndex :: real
  timestamp :: nat
  isComplete :: bool

record StreamingAudioBuffer =
  audioQueue :: "BufferedAudioChunk list"
  nextExpectedIndex :: nat
  processedChunks :: "real set"

datatype buffer_event =
    AudioReady string real
  | BufferStatus nat nat

definition newStreamingAudioBuffer :: StreamingAudioBuffer where
  "newStreamingAudioBuffer = \<lparr>audioQueue = [], nextExpectedIndex = 0, processedChunks = {}\<rparr>"

definition insertChunkInOrder :: "BufferedAudioChunk \<Rightarrow> StreamingAudioBuffer \<Rightarrow> StreamingAudioBuffer" where
  "insertChunkInOrder newChunk b =
     (if list_ex (\<lambda>c. chunkIndex c = chunkIndex newChunk) (audioQueue b) then b
      else b\<lparr>audioQueue :=
               takeWhile (\<lambda>c. chunkIndex c < chunkIndex newChunk) (audioQueue b)
               @ newChunk # dropWhile (\<lambda>c. chunkIndex c < chunkIndex newChunk) (audioQueue b)\<rparr>)"

text \<open>
  The \<open>while\<close> loop of \<open>processReadyChunks\<close>, on the queue, \<open>nextExpectedIndex\<close> and
  \<open>processedChunks\<close>: it returns the events, what is left of the queue and the two
  updated fields.
\<close>

fun processReadyLoop ::
  "BufferedAudioChunk list \<Rightarrow> nat \<Rightarrow> real set
   \<Rightarrow> buffer_event list \<times> BufferedAudioChunk list \<times> nat \<times> real set" where
  "processReadyLoop [] n proc = ([], [], n, proc)"
| "processReadyLoop (readyChunk # rest) n proc =
     (if chunkIndex readyChunk = real n \<and> isComplete readyChunk then
        (case processReadyLoop rest (Suc n) (insert (chunkIndex readyChunk) proc) of
           (evs, q, n', proc') \<Rightarrow>
             (AudioReady (concat (audioData readyChunk)) (chunkIndex readyChunk) # evs, q, n', proc'))
      else ([], readyChunk # rest, n, proc))"

definition processReadyChunks :: "StreamingAudioBuffer \<Rightarrow> buffer_event list \<times> StreamingAudioBuffer" where
  "processReadyChunks b =
     (case processReadyLoop (audioQueue b) (nextExpectedIndex b) (processedChunks b) of
        (evs, q, n, proc) \<Rightarrow>
          (evs, b\<lparr>audioQueue := q, nextExpectedIndex := n, processedChunks := proc\<rparr>))"

text \<open>
  \<open>audioQueue.find\<close> returns the first entry with the index, and the source pushes the
  segment onto that entry and overwrites its flag.
\<close>

fun appendSegment :: "string \<Rightarrow> real \<Rightarrow> bool \<Rightarrow> BufferedAudioChunk list \<Rightarrow> BufferedAudioChunk list" where
  "appendSegment a i f [] = []"
| "appendSegment a i f (c # cs) =
     (if chunkIndex c = i then c\<lparr>audioData := audioData c @ [a], isComplete := f\<rparr> # cs
      else c # appendSegment a i f cs)"

definition addAudioChunk ::
  "nat \<Rightarrow> string \<Rightarrow> real \<Rightarrow> bool \<Rightarrow> StreamingAudioBuffer \<Rightarrow> buffer_event list \<times> StreamingAudioBuffer" where
  "addAudioChunk now a i f b =
     (if i \<in> processedChunks b then ([], b)
      else
        let b1 = (if list_ex (\<lambda>c. chunkIndex c = i) (audioQueue b)
                  then b\<lparr>audioQueue := appendSegment a i f (audioQueue b)\<rparr>
                  else insertChunkInOrder
                         \<lparr>audioData = [a], chunkIndex = i, timestamp = now, isComplete = f\<rparr> b);
            (evs, b2) = processReadyChunks b1
        in (evs @ [BufferStatus (length (audioQueue b2)) (nextExpectedIndex b2)], b2))"

text \<open>\<open>StreamingAudioBuffer.reset\<close>; the validator has a \<open>reset\<close> of its own.\<close>

definition resetBuffer :: "StreamingAudioBuffer \<Rightarrow> StreamingAudioBuffer" where
  "resetBuffer b = b\<lparr>audioQueue := [], nextExpectedIndex := 0, processedChunks := {}\<rparr>"

text \<open>Sequences of operations on one buffer, with the events they deliver.\<close>

datatype buffer_op = Add nat string real bool | Drain | Reset

fun buffer_step :: "buffer_op \<Rightarrow> StreamingAudioBuffer \<Rightarrow> buffer_event list \<times> StreamingAudioBuffer" where
  "buffer_step (Add now a i f) b = addAudioChunk now a i f b"
| "buffer_step Drain b = processReadyChunks b"
| "buffer_step Reset b = ([], resetBuffer b)"

fun buffer_run :: "buffer_op list \<Rightarrow> StreamingAudioBuffer \<Rightarrow> buffer_event list \<times> StreamingAudioBuffer" where
  "buffer_run [] b = ([], b)"
| "buffer_run (x # xs) b =
     (case buffer_step x b of (evs, b') \<Rightarrow>
        (case buffer_run xs b' of (evs', b'') \<Rightarrow> (evs @ evs', b'')))"

text \<open>
  What \<open>onAudioReady\<close> is handed, in the order of delivery: the combined audio with the
  index, and the indices alone.
\<close>

fun delivered :: "buffer_event list \<Rightarrow> (string \<times> real) list" where
  "delivered [] = []"
| "delivered (AudioReady a i # evs) = (a, i) # delivered evs"
| "delivered (BufferStatus k n # evs) = delivered evs"

fun released :: "buffer_event list \<Rightarrow> real list" where
  "released [] = []"
| "released (AudioReady a i # evs) = i # released evs"
| "released (BufferStatus k n # evs) = released evs"

text \<open>An index a caller of the application passes: a non-negative integer.\<close>

definition natural_index :: "real \<Rightarrow> bool" where
  "natural_index i = (0 \<le> i \<and> i = of_int \<lfloor>i\<rfloor>)"

fun natural_op :: "buffer_op \<Rightarrow> bool" where
  "natural_op (Add now a i f) = natural_index i"
| "natural_op Drain = True"
| "natural_op Reset = True"

text \<open>
  The released indices are exactly those below \<open>nextExpectedIndex\<close>
  (\<open>released_below\<close>); with nothing queued below it this is \<open>released_prefix_inv\<close>.
  \<open>ordered_inv\<close> is inductive for calls with any index: the queue is strictly
  ascending and holds no released index. \<open>buffer_inv\<close> adds that the queued indices are
  non-negative integers, which calls with such indices preserve.
\<close>

definition released_below :: "StreamingAudioBuffer \<Rightarrow> bool" where
  "released_below b = (processedChunks b = real ` {0..<nextExpectedIndex b})"

definition released_prefix_inv :: "StreamingAudioBuffer \<Rightarrow> bool" where
  "released_prefix_inv b =
     (processedChunks b = real ` {0..<nextExpectedIndex b}
      \<and> (\<forall>c\<in>set (audioQueue b). real (nextExpectedIndex b) \<le> chunkIndex c))"

definition ordered_inv :: "StreamingAudioBuffer \<Rightarrow> bool" where
  "ordered_inv b =
     (sorted_wrt (<) (map chunkIndex (audioQueue b))
      \<and> released_below b
      \<and> (\<forall>c\<in>set (audioQueue b). chunkIndex c \<notin> processedChunks b))"

definition natural_queue :: "StreamingAudioBuffer \<Rightarrow> bool" where
  "natural_queue b = (\<forall>c\<in>set (audioQueue b). natural_index (chunkIndex c))"

definition buffer_inv :: "StreamingAudioBuffer \<Rightarrow> bool" where
  "buffer_inv b = (ordered_inv b \<and> natural_queue b)"

text \<open>The head of the queue is not ready: the loop of \<open>processReadyChunks\<close> has nothing to do.\<close>

definition settled :: "StreamingAudioBuffer \<Rightarrow> bool" where
  "settled b =
     (case audioQueue b of [] \<Rightarrow> True
      | c # cs \<Rightarrow> \<not> (chunkIndex c = real (nextExpectedIndex b) \<and> isComplete c))"

text \<open>
  An \<open>addAudioChunk\<close> call as a tuple (time stamp, segment, index, flag). \<open>accepted\<close>
  keeps the calls of a run that get past the early return, that is, whose index is not
  yet released when they arrive. \<open>segments_of\<close> and \<open>last_flag\<close> are the segments of the
  calls that name an index, in order of arrival, and the flag of the last of them.
\<close>

type_synonym add_call = "nat \<times> string \<times> real \<times> bool"

definition call_segment :: "add_call \<Rightarrow> string" where
  "call_segment c = fst (snd c)"

definition call_index :: "add_call \<Rightarrow> real" where
  "call_index c = fst (snd (snd c))"

definition call_flag :: "add_call \<Rightarrow> bool" where
  "call_flag c = snd (snd (snd c))"

definition add_op :: "add_call \<Rightarrow> buffer_op" where
  "add_op c = Add (fst c) (call_segment c) (call_index c) (call_flag c)"

fun accepted :: "add_call list \<Rightarrow> StreamingAudioBuffer \<Rightarrow> add_call list" where
  "accepted [] b = []"
| "accepted (c # cs) b =
     (if call_index c \<in> processedChunks b then accepted cs b
      else c # accepted cs (snd (buffer_step (add_op c) b)))"

definition segments_of :: "real \<Rightarrow> add_call list \<Rightarrow> string list" where
  "segments_of i calls = map call_segment (filter (\<lambda>c. call_index c = i) calls)"

definition last_flag :: "real \<Rightarrow> add_call list \<Rightarrow> bool option" where
  "last_flag i calls =
     (let xs = filter (\<lambda>c. call_index c = i) calls
      in if xs = [] then None else Some (call_flag (last xs)))"

text \<open>The buffer after the find-or-create step of \<open>addAudioChunk\<close>, before the drain.\<close>

definition upsert :: "nat \<Rightarrow> string \<Rightarrow> real \<Rightarrow> bool \<Rightarrow> StreamingAudioBuffer \<Rightarrow> StreamingAudioBuffer" where
  "upsert now a i f b =
     (if list_ex (\<lambda>c. chunkIndex c = i) (audioQueue b)
      then b\<lparr>audioQueue := appendSegment a i f (audioQueue b)\<rparr>
      else insertChunkInOrder \<lparr>audioData = [a], chunkIndex = i, timestamp = now, isComplete = f\<rparr> b)"

text \<open>
  Bookkeeping for a run of accepted calls: every queued entry holds the segments of the
  calls for its index and the flag of the last one, every index named by a call is
  released or queued, and the last call for a released index carried the flag.
\<close>

definition tracked :: "add_call list \<Rightarrow> StreamingAudioBuffer \<Rightarrow> bool" where
  "tracked calls b =
     ((\<forall>c\<in>set (audioQueue b).
          chunkIndex c \<notin> processedChunks b
          \<and> audioData c = segments_of (chunkIndex c) calls
          \<and> last_flag (chunkIndex c) calls = Some (isComplete c))
      \<and> (\<forall>i. segments_of i calls \<noteq> [] \<longrightarrow>
             i \<in> processedChunks b \<or> i \<in> chunkIndex ` set (audioQueue b))
      \<and> (\<forall>i\<in>processedChunks b. last_flag i calls = Some True))"

text \<open>
  Only indices 0..n occur (\<open>in_range\<close>). Three readings of "every index in 0..n receives
  a call marking it complete": some call for the index carries the flag
  (\<open>marked_complete_once\<close>); the last call for the index carries it (\<open>completed_last\<close>);
  the last call for the index that arrives before the index is released carries it
  (\<open>completed_while_pending\<close>). \<open>chunk_of calls k\<close> is the chunk the calls make up for
  index \<open>k\<close>: their segments joined in order of arrival.
\<close>

definition in_range :: "nat \<Rightarrow> add_call list \<Rightarrow> bool" where
  "in_range n calls =
     list_all (\<lambda>c. natural_index (call_index c) \<and> call_index c \<le> real n) calls"

definition marked_complete_once :: "nat \<Rightarrow> add_call list \<Rightarrow> bool" where
  "marked_complete_once n calls =
     (in_range n calls
      \<and> list_all (\<lambda>k. list_ex (\<lambda>c. call_index c = real k \<and> call_flag c) calls) [0..<Suc n])"

definition completed_last :: "nat \<Rightarrow> add_call list \<Rightarrow> bool" where
  "completed_last n calls = list_all (\<lambda>k. last_flag (real k) calls = Some True) [0..<Suc n]"

definition completed_while_pending :: "nat \<Rightarrow> add_call list \<Rightarrow> bool" where
  "completed_while_pending n calls =
     list_all (\<lambda>k. last_flag (real k) (accepted calls newStreamingAudioBuffer) = Some True)
       [0..<Suc n]"

definition chunk_of :: "add_call list \<Rightarrow> nat \<Rightarrow> string \<times> real" where
  "chunk_of calls k = (concat (segments_of (real k) calls), real k)"

section \<open>Playback scheduler (WebAudioStreamer)\<close>

text \<open>
  Times are JavaScript numbers, modelled as reals; every operation that computes with
  them rounds its result. The clock \<open>audioContext.currentTime\<close> and the context's state
  are fields of the streamer that the environment changes (\<open>advance\<close>, \<open>contextResumed\<close>).
  Every operation returns the events it causes, in order (log messages, callbacks, calls
  on source nodes), and the new streamer. The gain node and \<open>setVolume\<close> are left out.
\<close>

subsection \<open>Arithmetic\<close>

text \<open>
  A JavaScript number is an IEEE 754 binary64 value, and every arithmetic operation
  returns the exact result rounded to the nearest such value, ties to even. The
  operations that compute with times take the rounding \<open>rnd\<close> as their first argument:
  \<open>binary64\<close> is the program as it runs, \<open>exact\<close> is arithmetic without rounding.
  \<open>binary64\<close> keeps 53 significant bits at every magnitude: overflow to \<open>Infinity\<close>,
  \<open>NaN\<close> and the subnormal range are outside the model.
\<close>

definition exact :: "real \<Rightarrow> real" where
  "exact x = x"

definition roundTiesToEven :: "real \<Rightarrow> int" where
  "roundTiesToEven y =
     (let n = \<lfloor>y\<rfloor>; r = y - of_int n
      in if r < 1 / 2 then n else if 1 / 2 < r then n + 1 else if even n then n else n + 1)"

definition binary64 :: "real \<Rightarrow> real" where
  "binary64 x =
     (if x = 0 then 0
      else let e = \<lfloor>log 2 \<bar>x\<bar>\<rfloor> - 52
           in of_int (roundTiesToEven (x / 2 powi e)) * 2 powi e)"

text \<open>
  What the proofs below use of a rounding: it is monotone, it leaves its own results
  unchanged, and it leaves 0 unchanged.
\<close>

definition rounding :: "(real \<Rightarrow> real) \<Rightarrow> bool" where
  "rounding rnd =
     ((\<forall>x y. x \<le> y \<longrightarrow> rnd x \<le> rnd y) \<and> (\<forall>x. rnd (rnd x) = rnd x) \<and> rnd 0 = 0)"

subsection \<open>Decoding: \<open>atob\<close> and 16-bit PCM\<close>

text \<open>
  The errors the \<open>try\<close> block of \<open>enqueue\<close> can catch: \<open>atob\<close> on malformed base64,
  \<open>createBuffer\<close> with a length of zero, \<open>DataView.getInt16\<close> past the end, and a
  rejected \<open>decodeAudioData\<close>.
\<close>

datatype js_error = InvalidCharacterError | NotSupportedError | RangeError | EncodingError

text \<open>
  \<open>atob\<close> is the forgiving base64 decoder of the HTML standard: ASCII white space is
  removed, one or two trailing \<open>=\<close> are dropped when the length is a multiple of 4, a
  length of 1 modulo 4 or a character outside the alphabet fails, and the trailing bits of
  an incomplete group are discarded. Bytes are naturals below 256.
\<close>

definition isAsciiWhitespace :: "char \<Rightarrow> bool" where
  "isAsciiWhitespace c = (of_char c \<in> {9, 10, 12, 13, 32 :: nat})"

definition base64Value :: "char \<Rightarrow> nat option" where
  "base64Value c =
     (let n = of_char c :: nat in
      if 65 \<le> n \<and> n \<le> 90 then Some (n - 65)
      else if 97 \<le> n \<and> n \<le> 122 then Some (n - 71)
      else if 48 \<le> n \<and> n \<le> 57 then Some (n + 4)
      else if n = 43 then Some 62
      else if n = 47 then Some 63
      else None)"

fun base64Bytes :: "nat list \<Rightarrow> nat list" where
  "base64Bytes (a # b # c # d # rest) =
     ((a * 64 + b) div 16) mod 256 # ((b * 64 + c) div 4) mod 256 # (c * 64 + d) mod 256
     # base64Bytes rest"
| "base64Bytes [a, b, c] = [((a * 64 + b) div 16) mod 256, ((b * 64 + c) div 4) mod 256]"
| "base64Bytes [a, b] = [((a * 64 + b) div 16) mod 256]"
| "base64Bytes _ = []"

definition stripPadding :: "string \<Rightarrow> string" where
  "stripPadding d =
     (if length d mod 4 = 0 \<and> d \<noteq> [] \<and> last d = CHR ''='' then
        (if butlast d \<noteq> [] \<and> last (butlast d) = CHR ''='' then butlast (butlast d) else butlast d)
      else d)"

definition atob :: "string \<Rightarrow> js_error + nat list" where
  "atob data =
     (let d = stripPadding (filter (\<lambda>c. \<not> isAsciiWhitespace c) data) in
      if length d mod 4 = 1 then Inl InvalidCharacterError
      else case those (map base64Value d) of
             None \<Rightarrow> Inl InvalidCharacterError
           | Some vs \<Rightarrow> Inr (base64Bytes vs))"

text \<open>
  An \<open>AudioBuffer\<close> by its sample rate and the samples of its first channel; its
  \<open>duration\<close> is the rounded quotient of length and rate. A 16-bit sample divided by
  32768 is exact in binary64 and in the \<open>Float32Array\<close> that stores it.
\<close>

record AudioBuffer =
  sampleRate :: nat
  channelData :: "real list"

definition duration :: "(real \<Rightarrow> real) \<Rightarrow> AudioBuffer \<Rightarrow> real" where
  "duration rnd b = rnd (real (length (channelData b)) / real (sampleRate b))"

definition getInt16 :: "nat \<Rightarrow> nat \<Rightarrow> int" where
  "getInt16 lo hi =
     (let u = int lo + 256 * int hi in if u < 32768 then u else u - 65536)"

text \<open>
  The conversion loop runs while \<open>i < bytes.length / 2\<close>; on an odd length its last round
  reads two bytes where one is left, and \<open>getInt16\<close> throws a \<open>RangeError\<close>.
\<close>

fun pcmSamples :: "nat list \<Rightarrow> js_error + real list" where
  "pcmSamples [] = Inr []"
| "pcmSamples [b] = Inl RangeError"
| "pcmSamples (lo # hi # rest) =
     (case pcmSamples rest of
        Inl e \<Rightarrow> Inl e
      | Inr xs \<Rightarrow> Inr (real_of_int (getInt16 lo hi) / 32768 # xs))"

text \<open>
  \<open>createBuffer(1, numSamples, 48000)\<close> truncates \<open>numSamples\<close> to an integer and throws
  \<open>NotSupportedError\<close> when that is zero.
\<close>

definition decodePCM :: "nat list \<Rightarrow> js_error + AudioBuffer" where
  "decodePCM bytes =
     (if length bytes div 2 = 0 then Inl NotSupportedError
      else case pcmSamples bytes of
             Inl e \<Rightarrow> Inl e
           | Inr xs \<Rightarrow> Inr \<lparr>sampleRate = 48000, channelData = xs\<rparr>)"

subsection \<open>State and events\<close>

text \<open>
  A source node has an identity (\<open>indexOf\<close> compares objects): \<open>nodeId\<close> numbers the nodes
  in the order \<open>createBufferSource\<close> makes them, counted by \<open>nodesCreated\<close>.
\<close>

record AudioBufferSourceNode =
  nodeId :: nat
  buffer :: AudioBuffer

datatype context_state = Suspended | Running | Closed

record WebAudioStreamer =
  currentTime :: real
  contextState :: context_state
  bufferQueue :: "AudioBuffer list"
  isPlaying :: bool
  nextStartTime :: real
  scheduledSources :: "AudioBufferSourceNode list"
  totalChunksReceived :: nat
  totalChunksPlayed :: nat
  audioDataChunks :: "nat list list"
  nodesCreated :: nat

datatype log_message =
    LogChunkReceived nat bool
  | LogPCMConverted nat real
  | LogMP3Decoded nat real
  | LogBufferFull
  | LogQueueSize nat nat
  | LogStartingPlayback
  | LogContextResumed
  | LogScheduled nat real real
  | LogSchedulingSummary nat real
  | LogChunkCompleted real
  | LogAllCompleted
  | LogStopping
  | LogSessionReset
  | LogDecodeError js_error

datatype event =
    Log log_message
  | ConsoleError js_error
  | PlaybackStateChange bool
  | ResumeRequested
  | DecodeRequested "nat list"
  | SourceStart AudioBufferSourceNode real
  | SourceStop AudioBufferSourceNode

subsection \<open>Operations\<close>

definition BUFFER_AHEAD_TIME :: "(real \<Rightarrow> real) \<Rightarrow> real" where
  "BUFFER_AHEAD_TIME rnd = rnd (1 / 10)"

definition MAX_BUFFER_SIZE :: nat where
  "MAX_BUFFER_SIZE = 10"

text \<open>
  The constructor, at clock reading \<open>t\<close> with the context in state \<open>st\<close>; its log
  message is left out.
\<close>

definition newWebAudioStreamer ::
  "(real \<Rightarrow> real) \<Rightarrow> real \<Rightarrow> context_state \<Rightarrow> WebAudioStreamer" where
  "newWebAudioStreamer rnd t st =
     \<lparr>currentTime = t, contextState = st, bufferQueue = [], isPlaying = False,
      nextStartTime = rnd (t + BUFFER_AHEAD_TIME rnd), scheduledSources = [],
      totalChunksReceived = 0, totalChunksPlayed = 0, audioDataChunks = [], nodesCreated = 0\<rparr>"

text \<open>The \<open>while\<close> loop of \<open>scheduleChunks\<close> over the pending queue.\<close>

fun scheduleLoop ::
  "(real \<Rightarrow> real) \<Rightarrow> AudioBuffer list \<Rightarrow> WebAudioStreamer \<Rightarrow> event list \<times> WebAudioStreamer" where
  "scheduleLoop rnd [] s = ([], s)"
| "scheduleLoop rnd (audioBuffer # rest) s =
     (let source = \<lparr>nodeId = nodesCreated s, buffer = audioBuffer\<rparr>;
          startTime = nextStartTime s;
          s' = s\<lparr>bufferQueue := rest,
                 nextStartTime := rnd (startTime + duration rnd audioBuffer),
                 scheduledSources := scheduledSources s @ [source],
                 totalChunksPlayed := Suc (totalChunksPlayed s),
                 nodesCreated := Suc (nodesCreated s)\<rparr>
      in case scheduleLoop rnd rest s' of
           (evs, s'') \<Rightarrow>
             (SourceStart source startTime
              # Log (LogScheduled (Suc (totalChunksPlayed s)) startTime (duration rnd audioBuffer))
              # evs, s''))"

definition scheduleChunks ::
  "(real \<Rightarrow> real) \<Rightarrow> WebAudioStreamer \<Rightarrow> event list \<times> WebAudioStreamer" where
  "scheduleChunks rnd s =
     (let now = currentTime s in
      case scheduleLoop rnd (bufferQueue s) s of
        (evs, s') \<Rightarrow>
          (evs @ (if scheduledSources s' \<noteq> []
                  then [Log (LogSchedulingSummary (length (scheduledSources s'))
                               (rnd (rnd (nextStartTime s' - now) * 1000)))]
                  else []),
           s'))"

definition continuePlayback ::
  "(real \<Rightarrow> real) \<Rightarrow> WebAudioStreamer \<Rightarrow> event list \<times> WebAudioStreamer" where
  "continuePlayback rnd s =
     (let s1 = s\<lparr>isPlaying := True\<rparr>;
          now = currentTime s1;
          s2 = (if nextStartTime s1 \<le> now
                then s1\<lparr>nextStartTime := rnd (now + BUFFER_AHEAD_TIME rnd)\<rparr> else s1)
      in case scheduleChunks rnd s2 of (evs, s3) \<Rightarrow> (PlaybackStateChange True # evs, s3))"

definition startPlayback ::
  "(real \<Rightarrow> real) \<Rightarrow> WebAudioStreamer \<Rightarrow> event list \<times> WebAudioStreamer" where
  "startPlayback rnd s =
     (if bufferQueue s = [] then ([], s)
      else if contextState s = Suspended then ([ResumeRequested], s)
      else continuePlayback rnd s)"

text \<open>
  The callback of \<open>audioContext.resume().then\<close>, run when the context has resumed.
\<close>

definition contextResumed ::
  "(real \<Rightarrow> real) \<Rightarrow> WebAudioStreamer \<Rightarrow> event list \<times> WebAudioStreamer" where
  "contextResumed rnd s =
     (case continuePlayback rnd (s\<lparr>contextState := Running\<rparr>) of
        (evs, s') \<Rightarrow> (Log LogContextResumed # evs, s'))"

text \<open>
  \<open>enqueue\<close> from the decoded buffer on (drop the oldest if full, push, start or schedule).
  For PCM it runs inside the call; for MP3 it is the continuation after
  \<open>await decodeAudioData\<close>, and other operations may run in between.
\<close>

definition enqueueDecoded ::
  "(real \<Rightarrow> real) \<Rightarrow> AudioBuffer \<Rightarrow> WebAudioStreamer \<Rightarrow> event list \<times> WebAudioStreamer" where
  "enqueueDecoded rnd audioBuffer s =
     (let full = (length (bufferQueue s) \<ge> MAX_BUFFER_SIZE);
          s1 = (if full
                then s\<lparr>bufferQueue := tl (bufferQueue s),
                       audioDataChunks :=
                         (if length (audioDataChunks s) > MAX_BUFFER_SIZE
                          then tl (audioDataChunks s) else audioDataChunks s)\<rparr>
                else s);
          s2 = s1\<lparr>bufferQueue := bufferQueue s1 @ [audioBuffer],
                  totalChunksReceived := Suc (totalChunksReceived s1)\<rparr>;
          evs = (if full then [Log LogBufferFull] else [])
                @ [Log (LogQueueSize (length (bufferQueue s2)) (totalChunksReceived s2))]
      in if \<not> isPlaying s2
         then (case startPlayback rnd s2 of (evs', s3) \<Rightarrow> (evs @ Log LogStartingPlayback # evs', s3))
         else (case scheduleChunks rnd s2 of (evs', s3) \<Rightarrow> (evs @ evs', s3)))"

text \<open>
  The \<open>try\<close> block of \<open>enqueue\<close> up to its first \<open>await\<close>: the error it throws, if any,
  with the events and the state reached by then. \<open>enqueue\<close> is the block with its
  \<open>catch\<close> clause, which logs the error and returns.
\<close>

definition enqueueBody ::
  "(real \<Rightarrow> real) \<Rightarrow> string \<Rightarrow> bool \<Rightarrow> WebAudioStreamer
   \<Rightarrow> js_error option \<times> event list \<times> WebAudioStreamer" where
  "enqueueBody rnd base64Data isPCM s =
     (let received = Log (LogChunkReceived (length base64Data) isPCM) in
      case atob base64Data of
        Inl e \<Rightarrow> (Some e, [received], s)
      | Inr bytes \<Rightarrow>
          let s1 = s\<lparr>audioDataChunks := audioDataChunks s @ [bytes]\<rparr> in
          if isPCM then
            (case decodePCM bytes of
               Inl e \<Rightarrow> (Some e, [received], s1)
             | Inr audioBuffer \<Rightarrow>
                 (case enqueueDecoded rnd audioBuffer s1 of
                    (evs, s2) \<Rightarrow>
                      (None,
                       received
                       # Log (LogPCMConverted (length (channelData audioBuffer)) (duration rnd audioBuffer))
                       # evs, s2)))
          else (None, [received, DecodeRequested bytes], s1))"

definition enqueue ::
  "(real \<Rightarrow> real) \<Rightarrow> string \<Rightarrow> bool \<Rightarrow> WebAudioStreamer \<Rightarrow> event list \<times> WebAudioStreamer" where
  "enqueue rnd base64Data isPCM s =
     (if base64Data = [] then ([], s)
      else case enqueueBody rnd base64Data isPCM s of
             (None, evs, s') \<Rightarrow> (evs, s')
           | (Some e, evs, s') \<Rightarrow> (evs @ [Log (LogDecodeError e), ConsoleError e], s'))"

text \<open>The two ways the \<open>await\<close> of the MP3 path ends.\<close>

definition decodeResolved ::
  "(real \<Rightarrow> real) \<Rightarrow> AudioBuffer \<Rightarrow> WebAudioStreamer \<Rightarrow> event list \<times> WebAudioStreamer" where
  "decodeResolved rnd audioBuffer s =
     (case enqueueDecoded rnd audioBuffer s of
        (evs, s') \<Rightarrow>
          (Log (LogMP3Decoded (length (channelData audioBuffer)) (duration rnd audioBuffer)) # evs, s'))"

definition decodeRejected :: "js_error \<Rightarrow> WebAudioStreamer \<Rightarrow> event list \<times> WebAudioStreamer" where
  "decodeRejected e s = ([Log (LogDecodeError e), ConsoleError e], s)"

text \<open>The \<open>onended\<close> handler of a source node.\<close>

definition sourceEnded :: "AudioBufferSourceNode \<Rightarrow> WebAudioStreamer \<Rightarrow> event list \<times> WebAudioStreamer" where
  "sourceEnded source s =
     (let s1 = s\<lparr>scheduledSources := remove1 source (scheduledSources s)\<rparr>;
          completed = Log (LogChunkCompleted (currentTime s))
      in if scheduledSources s1 = [] \<and> bufferQueue s1 = []
         then ([completed, Log LogAllCompleted, PlaybackStateChange False], s1\<lparr>isPlaying := False\<rparr>)
         else ([completed], s1))"

definition stop ::
  "(real \<Rightarrow> real) \<Rightarrow> WebAudioStreamer \<Rightarrow> event list \<times> WebAudioStreamer" where
  "stop rnd s =
     (Log LogStopping # map SourceStop (scheduledSources s) @ [PlaybackStateChange False],
      s\<lparr>scheduledSources := [], bufferQueue := [], isPlaying := False,
        nextStartTime := rnd (currentTime s + BUFFER_AHEAD_TIME rnd)\<rparr>)"

definition resetSession ::
  "(real \<Rightarrow> real) \<Rightarrow> WebAudioStreamer \<Rightarrow> event list \<times> WebAudioStreamer" where
  "resetSession rnd s =
     (case stop rnd s of
        (evs, s') \<Rightarrow>
          (evs @ [Log LogSessionReset],
           s'\<lparr>totalChunksReceived := 0, totalChunksPlayed := 0, audioDataChunks := []\<rparr>))"

text \<open>
  \<open>getStatus\<close>. Fields that share a name with a field of the streamer carry a prefix; the
  numbers of \<open>webAudioStats\<close> are not formatted. The buffered time is the rounded
  difference of cursor and clock, times 1000, rounded again.
\<close>

record analytics =
  an_totalChunksReceived :: nat
  an_totalChunksPlayed :: nat
  bufferUnderruns :: nat
  bufferOverflows :: nat
  averageChunkDuration :: nat
  minQueueSize :: nat
  maxQueueSize :: nat
  totalPlaybackTime :: nat
  bufferStarvationTime :: nat
  consecutiveUnderruns :: nat
  isBuffering :: bool

record bufferHealth =
  isHealthy :: bool
  healthScore :: real
  issues :: "string list"

record webAudioStats =
  audioContextState :: context_state
  st_currentTime :: real
  st_nextStartTime :: real
  bufferedTime :: real
  st_scheduledSources :: nat

record status =
  st_isPlaying :: bool
  queueSize :: nat
  st_analytics :: analytics
  st_bufferHealth :: bufferHealth
  st_webAudioStats :: webAudioStats

definition getStatus :: "(real \<Rightarrow> real) \<Rightarrow> WebAudioStreamer \<Rightarrow> status" where
  "getStatus rnd s =
     (let now = currentTime s;
          buffered = max 0 (rnd (rnd (nextStartTime s - now) * 1000))
      in \<lparr>st_isPlaying = isPlaying s,
          queueSize = length (bufferQueue s) + length (scheduledSources s),
          st_analytics =
            \<lparr>an_totalChunksReceived = totalChunksReceived s,
             an_totalChunksPlayed = totalChunksPlayed s,
             bufferUnderruns = 0, bufferOverflows = 0, averageChunkDuration = 0,
             minQueueSize = 0, maxQueueSize = 0, totalPlaybackTime = 0,
             bufferStarvationTime = 0, consecutiveUnderruns = 0,
             isBuffering = (scheduledSources s = [] \<and> bufferQueue s \<noteq> [])\<rparr>,
          st_bufferHealth =
            \<lparr>isHealthy = (buffered > 100 \<or> scheduledSources s \<noteq> []),
             healthScore =
               min 100 (max 0 (if scheduledSources s \<noteq> [] then 100 else rnd (buffered / 5))),
             issues =
               (if scheduledSources s = [] \<and> bufferQueue s = [] \<and> isPlaying s
                then [''No scheduled audio sources'']
                else if buffered < 50 \<and> bufferQueue s = [] then [''Low scheduling buffer'']
                else [])\<rparr>,
          st_webAudioStats =
            \<lparr>audioContextState = contextState s, st_currentTime = now,
             st_nextStartTime = nextStartTime s, bufferedTime = buffered,
             st_scheduledSources = length (scheduledSources s)\<rparr>\<rparr>)"

subsection \<open>Runs\<close>

text \<open>The clock moves on by \<open>dt\<close>: its new reading is the rounded sum.\<close>

definition advance :: "(real \<Rightarrow> real) \<Rightarrow> real \<Rightarrow> WebAudioStreamer \<Rightarrow> WebAudioStreamer" where
  "advance rnd dt s = s\<lparr>currentTime := rnd (currentTime s + dt)\<rparr>"

datatype streamer_op =
    Enqueue string bool
  | DecodeResolved AudioBuffer
  | DecodeRejected js_error
  | ContextResumed
  | Ended AudioBufferSourceNode
  | Advance real
  | Stop
  | ResetSession

fun step ::
  "(real \<Rightarrow> real) \<Rightarrow> streamer_op \<Rightarrow> WebAudioStreamer \<Rightarrow> event list \<times> WebAudioStreamer" where
  "step rnd (Enqueue base64Data isPCM) s = enqueue rnd base64Data isPCM s"
| "step rnd (DecodeResolved audioBuffer) s = decodeResolved rnd audioBuffer s"
| "step rnd (DecodeRejected e) s = decodeRejected e s"
| "step rnd ContextResumed s = contextResumed rnd s"
| "step rnd (Ended source) s = sourceEnded source s"
| "step rnd (Advance dt) s = ([], advance rnd dt s)"
| "step rnd Stop s = stop rnd s"
| "step rnd ResetSession s = resetSession rnd s"

fun run ::
  "(real \<Rightarrow> real) \<Rightarrow> streamer_op list \<Rightarrow> WebAudioStreamer \<Rightarrow> event list \<times> WebAudioStreamer" where
  "run rnd [] s = ([], s)"
| "run rnd (x # xs) s =
     (case step rnd x s of (evs, s') \<Rightarrow>
        (case run rnd xs s' of (evs', s'') \<Rightarrow> (evs @ evs', s'')))"

text \<open>The start time and the duration of every \<open>source.start\<close> call, in order.\<close>

fun starts :: "(real \<Rightarrow> real) \<Rightarrow> event list \<Rightarrow> (real \<times> real) list" where
  "starts rnd [] = []"
| "starts rnd (SourceStart source t # evs) = (t, duration rnd (buffer source)) # starts rnd evs"
| "starts rnd (_ # evs) = starts rnd evs"

text \<open>
  A run stays on one timeline when it contains no \<open>stop\<close> or \<open>resetSession\<close>, the clock
  never runs backwards, and every operation that schedules buffers after an earlier
  one did finds the clock before the end of the last buffer scheduled so far. The
  second argument of \<open>punctual\<close> is that end, \<open>None\<close> while nothing has been scheduled.
\<close>

definition endOfLast :: "(real \<Rightarrow> real) \<Rightarrow> (real \<times> real) list \<Rightarrow> real" where
  "endOfLast rnd xs = rnd (fst (last xs) + snd (last xs))"

fun punctual ::
  "(real \<Rightarrow> real) \<Rightarrow> real option \<Rightarrow> streamer_op list \<Rightarrow> WebAudioStreamer \<Rightarrow> bool" where
  "punctual rnd e [] s = True"
| "punctual rnd e (x # xs) s =
     (x \<noteq> Stop \<and> x \<noteq> ResetSession
      \<and> currentTime s \<le> currentTime (snd (step rnd x s))
      \<and> (if starts rnd (fst (step rnd x s)) = [] then punctual rnd e xs (snd (step rnd x s))
         else (case e of None \<Rightarrow> True | Some t \<Rightarrow> currentTime s < t)
              \<and> punctual rnd (Some (endOfLast rnd (starts rnd (fst (step rnd x s))))) xs
                   (snd (step rnd x s))))"

definition no_reset :: "streamer_op list \<Rightarrow> bool" where
  "no_reset ops = list_all (\<lambda>x. x \<noteq> Stop \<and> x \<noteq> ResetSession) ops"

text \<open>The clock and the cursor are results of the rounding.\<close>

definition representable :: "(real \<Rightarrow> real) \<Rightarrow> WebAudioStreamer \<Rightarrow> bool" where
  "representable rnd s = (rnd (currentTime s) = currentTime s \<and> rnd (nextStartTime s) = nextStartTime s)"

text \<open>
  Each start time is the previous one plus the previous duration, rounded, from \<open>c\<close> on;
  \<open>cursorAfter\<close> is where such a chain ends.
\<close>

fun gapless :: "(real \<Rightarrow> real) \<Rightarrow> real \<Rightarrow> (real \<times> real) list \<Rightarrow> bool" where
  "gapless rnd c [] = True"
| "gapless rnd c (x # xs) = (fst x = c \<and> gapless rnd (rnd (c + snd x)) xs)"

fun cursorAfter :: "(real \<Rightarrow> real) \<Rightarrow> real \<Rightarrow> (real \<times> real) list \<Rightarrow> real" where
  "cursorAfter rnd c [] = c"
| "cursorAfter rnd c (x # xs) = cursorAfter rnd (rnd (c + snd x)) xs"

definition chained :: "(real \<Rightarrow> real) \<Rightarrow> real \<Rightarrow> event list \<times> WebAudioStreamer \<Rightarrow> bool" where
  "chained rnd c r =
     (gapless rnd c (starts rnd (fst r))
      \<and> nextStartTime (snd r) = cursorAfter rnd c (starts rnd (fst r)))"

text \<open>
  The first start time of an operation: the cursor, or the clock plus the lookahead when
  the clock has reached the cursor.
\<close>

definition anchored :: "(real \<Rightarrow> real) \<Rightarrow> WebAudioStreamer \<Rightarrow> event list \<times> WebAudioStreamer \<Rightarrow> bool" where
  "anchored rnd s r =
     (chained rnd (nextStartTime s) r
      \<or> (nextStartTime s \<le> currentTime s
          \<and> chained rnd (rnd (currentTime s + BUFFER_AHEAD_TIME rnd)) r))"

text \<open>The streamer after the overflow check and the push of \<open>enqueueDecoded\<close>.\<close>

definition queued :: "AudioBuffer \<Rightarrow> WebAudioStreamer \<Rightarrow> WebAudioStreamer" where
  "queued audioBuffer s =
     (let s1 = (if length (bufferQueue s) \<ge> MAX_BUFFER_SIZE
                then s\<lparr>bufferQueue := tl (bufferQueue s),
                       audioDataChunks :=
                         (if length (audioDataChunks s) > MAX_BUFFER_SIZE
                          then tl (audioDataChunks s) else audioDataChunks s)\<rparr>
                else s)
      in s1\<lparr>bufferQueue := bufferQueue s1 @ [audioBuffer],
              totalChunksReceived := Suc (totalChunksReceived s1)\<rparr>)"

text \<open>
  States used as examples: two active sources with three queued buffers, and a full queue
  on a suspended context whose cursor is the binary64 value of 0.1.
\<close>

definition scenarioC :: WebAudioStreamer where
  "scenarioC =
     \<lparr>currentTime = 2, contextState = Running,
      bufferQueue = [\<lparr>sampleRate = 48000, channelData = [0]\<rparr>,
                     \<lparr>sampleRate = 48000, channelData = [0, 0]\<rparr>,
                     \<lparr>sampleRate = 48000, channelData = [0, 0, 0]\<rparr>],
      isPlaying = True, nextStartTime = 3,
      scheduledSources = [\<lparr>nodeId = 0, buffer = \<lparr>sampleRate = 48000, channelData = [1]\<rparr>\<rparr>,
                          \<lparr>nodeId = 1, buffer = \<lparr>sampleRate = 48000, channelData = [1, 1]\<rparr>\<rparr>],
      totalChunksReceived = 5, totalChunksPlayed = 2, audioDataChunks = [], nodesCreated = 2\<rparr>"

definition tone :: "nat \<Rightarrow> AudioBuffer" where
  "tone k = \<lparr>sampleRate = 48000, channelData = [real k]\<rparr>"

definition fullQueue :: WebAudioStreamer where
  "fullQueue =
     \<lparr>currentTime = 0, contextState = Suspended,
      bufferQueue = [tone 0, tone 1, tone 2, tone 3, tone 4, tone 5, tone 6, tone 7, tone 8, tone 9],
      isPlaying = False, nextStartTime = 3602879701896397 / 36028797018963968,
      scheduledSources = [],
      totalChunksReceived = 10, totalChunksPlayed = 0, audioDataChunks = [], nodesCreated = 0\<rparr>"

section \<open>Validator: acceptance is exact equality with the active watermark\<close>

lemma validateChunk_valid_iff:
  "isValid (validateChunk v t) \<longleftrightarrow> (isActive v \<and> trim t = expectedText v)"
  by (auto simp: validateChunk_def isActive_def Let_def)

lemma validateChunk_reset: "\<not> isValid (validateChunk (reset v) t)"
  by (simp add: validateChunk_def reset_def)

text \<open>
  Claim C3. A watermark is installed exactly when \<open>expectedText\<close> is non-empty (the source's
  \<open>isActive\<close>). With a watermark installed, \<open>validateChunk t\<close> is valid if and only if the
  trimmed transcript equals the watermark, character for character; with none installed
  (the state \<open>reset\<close> produces) every transcript is rejected, and this stays so across
  any number of \<open>validateChunk\<close> calls, which leave the validator untouched, until
  \<open>setExpectedText\<close> stores the trimmed text as the new watermark.
\<close>

theorem C3_validateChunk_exact_match:
  "(isValid (validateChunk v t) \<longleftrightarrow> (isActive v \<and> trim t = expectedText v))
   \<and> \<not> isActive (reset v)
   \<and> \<not> isValid (validateChunk (reset v) t)
   \<and> expectedText (setExpectedText text v) = trim text
   \<and> (isValid (validateChunk (setExpectedText text (reset v)) t)
        \<longleftrightarrow> (trim text \<noteq> '''' \<and> trim t = trim text))"
  by (auto simp: validateChunk_def isActive_def reset_def setExpectedText_def Let_def)

theorem C3_validateChunk_witness:
  "isValid (validateChunk (setExpectedText ''Hello'' newChunkValidator) '' Hello '')
   \<and> \<not> isValid (validateChunk (setExpectedText ''Hello'' newChunkValidator) ''hello'')
   \<and> \<not> isValid (validateChunk (setExpectedText ''Hello'' newChunkValidator) ''Hello!'')
   \<and> \<not> isValid (validateChunk (reset (setExpectedText ''Hello'' newChunkValidator)) ''Hello'')"
  using C3_validateChunk_exact_match [of "setExpectedText ''Hello'' newChunkValidator" "'' Hello ''" "''x''"]
        C3_validateChunk_exact_match [of "setExpectedText ''Hello'' newChunkValidator" "''hello''" "''x''"]
        C3_validateChunk_exact_match [of "setExpectedText ''Hello'' newChunkValidator" "''Hello!''" "''x''"]
        C3_validateChunk_exact_match [of "setExpectedText ''Hello'' newChunkValidator" "''Hello''" "''x''"]
  by (simp add: isActive_def setExpectedText_def newChunkValidator_def trim_def isWhiteSpace_def)

section \<open>Sequence buffer: release order and invariants\<close>

lemma released_append: "released (xs @ ys) = released xs @ released ys"
  by (induction xs rule: released.induct) auto

lemma delivered_append: "delivered (xs @ ys) = delivered xs @ delivered ys"
  by (induction xs rule: delivered.induct) auto

lemma released_delivered: "released evs = map snd (delivered evs)"
  by (induction evs rule: released.induct) auto

lemma natural_index_real: "natural_index (real m)"
  by (simp add: natural_index_def)

lemma natural_indexD: "natural_index i \<Longrightarrow> \<exists>m. i = real m"
proof -
  assume a: "natural_index i"
  then have "0 \<le> \<lfloor>i\<rfloor>" by (simp add: natural_index_def)
  then have "real (nat \<lfloor>i\<rfloor>) = of_int \<lfloor>i\<rfloor>" by simp
  with a show ?thesis by (metis natural_index_def)
qed

lemma real_image_mem [simp]: "(real m \<in> real ` S) = (m \<in> S)"
  by (rule inj_image_mem_iff) (rule inj_of_nat)

lemma real_image_upt_Suc: "real ` {n..<n + Suc k} = insert (real n) (real ` {Suc n..<Suc n + k})"
proof -
  have "{n..<n + Suc k} = insert n {Suc n..<Suc n + k}" by auto
  then show ?thesis by simp
qed

lemma processReadyLoop_result:
  "processReadyLoop q n d = (evs, q', n', d') \<Longrightarrow>
   \<exists>k. k \<le> length q \<and> q' = drop k q \<and> n' = n + k \<and> d' = d \<union> real ` {n..<n + k}
       \<and> evs = map (\<lambda>c. AudioReady (concat (audioData c)) (chunkIndex c)) (take k q)
       \<and> map chunkIndex (take k q) = map real [n..<n + k]
       \<and> (\<forall>c\<in>set (take k q). isComplete c)"
proof (induction q arbitrary: n d evs q' n' d')
  case Nil
  then show ?case by simp
next
  case (Cons c q)
  show ?case
  proof (cases "chunkIndex c = real n \<and> isComplete c")
    case False
    with Cons.prems have "evs = [] \<and> q' = c # q \<and> n' = n \<and> d' = d" by auto
    then show ?thesis by (intro exI[of _ 0]) simp
  next
    case True
    obtain evs0 q0 n0 d0 where r: "processReadyLoop q (Suc n) (insert (real n) d) = (evs0, q0, n0, d0)"
      by (metis prod_cases4)
    from Cons.IH[OF r] obtain k where k:
      "k \<le> length q" "q0 = drop k q" "n0 = Suc n + k"
      "d0 = insert (real n) d \<union> real ` {Suc n..<Suc n + k}"
      "evs0 = map (\<lambda>c. AudioReady (concat (audioData c)) (chunkIndex c)) (take k q)"
      "map chunkIndex (take k q) = map real [Suc n..<Suc n + k]" "\<forall>c\<in>set (take k q). isComplete c"
      by blast
    from Cons.prems True r have e:
      "evs = AudioReady (concat (audioData c)) (chunkIndex c) # evs0" "q' = q0" "n' = n0" "d' = d0"
      by auto
    have d: "insert (real n) d \<union> real ` {Suc n..<Suc n + k} = d \<union> real ` {n..<n + Suc k}"
      unfolding real_image_upt_Suc by blast
    have u: "[n..<n + Suc k] = n # [Suc n..<Suc n + k]"
      by (simp add: upt_conv_Cons)
    show ?thesis
      apply (intro exI[of _ "Suc k"])
      using k e True d u by simp
  qed
qed

lemma processReadyLoop_settled:
  "processReadyLoop q n d = (evs, q', n', d') \<Longrightarrow>
   (case q' of [] \<Rightarrow> True | c # cs \<Rightarrow> \<not> (chunkIndex c = real n' \<and> isComplete c))"
  by (induction q arbitrary: n d evs q' n' d') (auto split: if_splits prod.splits)

lemma processReadyChunks_result:
  assumes "processReadyChunks b = (evs, b')"
  shows "\<exists>k. k \<le> length (audioQueue b) \<and> audioQueue b' = drop k (audioQueue b)
       \<and> nextExpectedIndex b' = nextExpectedIndex b + k
       \<and> processedChunks b' = processedChunks b \<union> real ` {nextExpectedIndex b..<nextExpectedIndex b + k}
       \<and> evs = map (\<lambda>c. AudioReady (concat (audioData c)) (chunkIndex c)) (take k (audioQueue b))
       \<and> map chunkIndex (take k (audioQueue b)) = map real [nextExpectedIndex b..<nextExpectedIndex b + k]
       \<and> (\<forall>c\<in>set (take k (audioQueue b)). isComplete c)"
proof -
  obtain q n d where r:
    "processReadyLoop (audioQueue b) (nextExpectedIndex b) (processedChunks b) = (evs, q, n, d)"
    and b': "b' = b\<lparr>audioQueue := q, nextExpectedIndex := n, processedChunks := d\<rparr>"
    using assms by (auto simp: processReadyChunks_def split: prod.splits)
  from processReadyLoop_result[OF r] show ?thesis
    unfolding b' by simp
qed

lemma processReadyChunks_settled:
  "processReadyChunks b = (evs, b') \<Longrightarrow> settled b'"
proof -
  assume a: "processReadyChunks b = (evs, b')"
  obtain q n d where r:
    "processReadyLoop (audioQueue b) (nextExpectedIndex b) (processedChunks b) = (evs, q, n, d)"
    and b': "b' = b\<lparr>audioQueue := q, nextExpectedIndex := n, processedChunks := d\<rparr>"
    using a by (auto simp: processReadyChunks_def split: prod.splits)
  from processReadyLoop_settled[OF r] show ?thesis
    unfolding b' settled_def by (simp split: list.splits)
qed

lemma image_upt_union:
  "real ` {0..<n} \<union> real ` {n..<n + k} = real ` {0..<n + k}"
  using ivl_disj_un_two(3)[of 0 n "n + k"] by (simp flip: image_Un)

lemma processReadyChunks_ordered:
  assumes "ordered_inv b" "processReadyChunks b = (evs, b')"
  shows "ordered_inv b'"
proof -
  from processReadyChunks_result[OF assms(2)] obtain k where k:
    "audioQueue b' = drop k (audioQueue b)"
    "nextExpectedIndex b' = nextExpectedIndex b + k"
    "processedChunks b' = processedChunks b \<union> real ` {nextExpectedIndex b..<nextExpectedIndex b + k}"
    "map chunkIndex (take k (audioQueue b)) = map real [nextExpectedIndex b..<nextExpectedIndex b + k]"
    by blast
  have s: "sorted_wrt (<) (map chunkIndex (audioQueue b))"
    and p: "processedChunks b = real ` {0..<nextExpectedIndex b}"
    and o: "\<forall>c\<in>set (audioQueue b). chunkIndex c \<notin> processedChunks b"
    using assms(1) by (auto simp: ordered_inv_def released_below_def)
  have 1: "sorted_wrt (<) (map chunkIndex (drop k (audioQueue b)))"
    using s by (simp flip: drop_map)
  have "sorted_wrt (<) (map chunkIndex (take k (audioQueue b)) @ map chunkIndex (drop k (audioQueue b)))"
    using s by (metis append_take_drop_id map_append)
  then have lt: "\<forall>x\<in>set (map chunkIndex (take k (audioQueue b))).
                   \<forall>y\<in>set (map chunkIndex (drop k (audioQueue b))). x < y"
    by (simp add: sorted_wrt_append)
  have t: "set (map chunkIndex (take k (audioQueue b)))
             = real ` {nextExpectedIndex b..<nextExpectedIndex b + k}"
    unfolding k(4) by simp
  have 2: "chunkIndex c \<notin> processedChunks b'" if c: "c \<in> set (drop k (audioQueue b))" for c
  proof -
    have "c \<in> set (audioQueue b)" using c by (rule in_set_dropD)
    with o have a: "chunkIndex c \<notin> processedChunks b" by blast
    have "chunkIndex c \<in> set (map chunkIndex (drop k (audioQueue b)))" using c by simp
    with lt have "\<forall>x\<in>set (map chunkIndex (take k (audioQueue b))). x \<noteq> chunkIndex c"
      by fastforce
    then have "chunkIndex c \<notin> real ` {nextExpectedIndex b..<nextExpectedIndex b + k}"
      unfolding t by blast
    with a show ?thesis unfolding k(3) by simp
  qed
  show ?thesis
    using k(1,2,3) p 1 2 image_upt_union[of "nextExpectedIndex b" k]
    by (simp add: ordered_inv_def released_below_def)
qed

lemma map_chunkIndex_appendSegment [simp]:
  "map chunkIndex (appendSegment a i f q) = map chunkIndex q"
  by (induction q) auto

lemma set_appendSegment_index:
  "chunkIndex ` set (appendSegment a i f q) = chunkIndex ` set q"
  by (metis list.set_map map_chunkIndex_appendSegment)

lemma sorted_insert_chunk:
  assumes "sorted_wrt (<) (map chunkIndex q)" "\<forall>c\<in>set q. chunkIndex c \<noteq> chunkIndex nc"
  shows "sorted_wrt (<) (map chunkIndex
           (takeWhile (\<lambda>c. chunkIndex c < chunkIndex nc) q
            @ nc # dropWhile (\<lambda>c. chunkIndex c < chunkIndex nc) q))"
  using assms by (induction q) (auto simp: less_trans dest: set_takeWhileD set_dropWhileD)

lemma insertChunkInOrder_set:
  "\<not> list_ex (\<lambda>c. chunkIndex c = chunkIndex nc) (audioQueue b) \<Longrightarrow>
   set (audioQueue (insertChunkInOrder nc b)) = insert nc (set (audioQueue b))"
proof -
  assume a: "\<not> list_ex (\<lambda>c. chunkIndex c = chunkIndex nc) (audioQueue b)"
  have "set (takeWhile P q @ nc # dropWhile P q) = insert nc (set q)" for P and q :: "BufferedAudioChunk list"
    by (metis Un_insert_right list.simps(15) set_append takeWhile_dropWhile_id)
  with a show ?thesis by (simp add: insertChunkInOrder_def)
qed

lemma upsert_fields [simp]:
  "nextExpectedIndex (upsert now a i f b) = nextExpectedIndex b"
  "processedChunks (upsert now a i f b) = processedChunks b"
  by (simp_all add: upsert_def insertChunkInOrder_def)

lemma upsert_indices:
  "chunkIndex ` set (audioQueue (upsert now a i f b)) = insert i (chunkIndex ` set (audioQueue b))"
proof (cases "list_ex (\<lambda>c. chunkIndex c = i) (audioQueue b)")
  case True
  then have "i \<in> chunkIndex ` set (audioQueue b)" by (auto simp: list_ex_iff)
  then show ?thesis using True set_appendSegment_index[of a i f "audioQueue b"]
    by (auto simp: upsert_def)
next
  case False
  then show ?thesis
    using insertChunkInOrder_set[of "\<lparr>audioData = [a], chunkIndex = i, timestamp = now, isComplete = f\<rparr>" b]
    by (simp add: upsert_def)
qed

lemma upsert_sorted:
  assumes "sorted_wrt (<) (map chunkIndex (audioQueue b))"
  shows "sorted_wrt (<) (map chunkIndex (audioQueue (upsert now a i f b)))"
proof (cases "list_ex (\<lambda>c. chunkIndex c = i) (audioQueue b)")
  case True
  with assms show ?thesis by (simp add: upsert_def)
next
  case False
  let ?nc = "\<lparr>audioData = [a], chunkIndex = i, timestamp = now, isComplete = f\<rparr>"
  have ne: "\<forall>c\<in>set (audioQueue b). chunkIndex c \<noteq> chunkIndex ?nc"
    using False by (auto simp: list_ex_iff)
  show ?thesis
    using sorted_insert_chunk[OF assms ne] False
    by (simp add: upsert_def insertChunkInOrder_def)
qed

lemma upsert_ordered:
  assumes "ordered_inv b" "i \<notin> processedChunks b"
  shows "ordered_inv (upsert now a i f b)"
proof -
  have s: "sorted_wrt (<) (map chunkIndex (audioQueue b))"
    and o: "\<forall>c\<in>set (audioQueue b). chunkIndex c \<notin> processedChunks b"
    and r: "released_below b"
    using assms(1) by (auto simp: ordered_inv_def)
  have "\<forall>x\<in>chunkIndex ` set (audioQueue (upsert now a i f b)). x \<notin> processedChunks b"
    unfolding upsert_indices using o assms(2) by auto
  then have "\<forall>c\<in>set (audioQueue (upsert now a i f b)). chunkIndex c \<notin> processedChunks b"
    by blast
  then show ?thesis
    using upsert_sorted[OF s, of now a i f] r
    by (simp add: ordered_inv_def released_below_def)
qed

lemma upsert_natural:
  assumes "natural_queue b" "natural_index i"
  shows "natural_queue (upsert now a i f b)"
proof -
  have "\<forall>x\<in>chunkIndex ` set (audioQueue (upsert now a i f b)). natural_index x"
    unfolding upsert_indices using assms by (auto simp: natural_queue_def)
  then show ?thesis by (simp add: natural_queue_def)
qed

lemma processReadyChunks_natural:
  assumes "natural_queue b" "processReadyChunks b = (evs, b')"
  shows "natural_queue b'"
proof -
  from processReadyChunks_result[OF assms(2)] obtain k where
    "audioQueue b' = drop k (audioQueue b)" by blast
  then show ?thesis using assms(1) by (auto simp: natural_queue_def dest: in_set_dropD)
qed

lemma addAudioChunk_unfold:
  "addAudioChunk now a i f b =
     (if i \<in> processedChunks b then ([], b)
      else case processReadyChunks (upsert now a i f b) of
             (evs, b2) \<Rightarrow> (evs @ [BufferStatus (length (audioQueue b2)) (nextExpectedIndex b2)], b2))"
  by (simp add: addAudioChunk_def upsert_def Let_def)

lemma addAudioChunk_snd:
  "i \<notin> processedChunks b \<Longrightarrow>
   snd (addAudioChunk now a i f b) = snd (processReadyChunks (upsert now a i f b))"
  by (simp add: addAudioChunk_unfold split: prod.splits)

lemma addAudioChunk_ordered:
  assumes "ordered_inv b"
  shows "ordered_inv (snd (addAudioChunk now a i f b))"
proof (cases "i \<in> processedChunks b")
  case True
  with assms show ?thesis by (simp add: addAudioChunk_unfold)
next
  case False
  obtain evs b2 where r: "processReadyChunks (upsert now a i f b) = (evs, b2)"
    by (metis surj_pair)
  from processReadyChunks_ordered[OF upsert_ordered[OF assms False] r] r
  show ?thesis by (simp add: addAudioChunk_snd[OF False])
qed

lemma addAudioChunk_natural:
  assumes "natural_queue b" "natural_index i"
  shows "natural_queue (snd (addAudioChunk now a i f b))"
proof (cases "i \<in> processedChunks b")
  case True
  with assms show ?thesis by (simp add: addAudioChunk_unfold)
next
  case False
  obtain evs b2 where r: "processReadyChunks (upsert now a i f b) = (evs, b2)"
    by (metis surj_pair)
  from processReadyChunks_natural[OF upsert_natural[OF assms] r] r
  show ?thesis by (simp add: addAudioChunk_snd[OF False])
qed

lemma buffer_inv_prefix: "buffer_inv b \<Longrightarrow> released_prefix_inv b"
proof -
  assume a: "buffer_inv b"
  then have p: "processedChunks b = real ` {0..<nextExpectedIndex b}"
    and o: "\<forall>c\<in>set (audioQueue b). chunkIndex c \<notin> processedChunks b"
    and n: "\<forall>c\<in>set (audioQueue b). natural_index (chunkIndex c)"
    by (auto simp: buffer_inv_def ordered_inv_def released_below_def natural_queue_def)
  have "real (nextExpectedIndex b) \<le> chunkIndex c" if c: "c \<in> set (audioQueue b)" for c
  proof -
    from n c obtain m where m: "chunkIndex c = real m" using natural_indexD by blast
    from o c have "chunkIndex c \<notin> processedChunks b" by blast
    then have "nextExpectedIndex b \<le> m" unfolding m p by simp
    then show ?thesis using m by simp
  qed
  then show ?thesis using p by (simp add: released_prefix_inv_def)
qed

lemma buffer_run_append:
  "buffer_run (xs @ ys) b =
     (case buffer_run xs b of (e, b') \<Rightarrow>
        (case buffer_run ys b' of (e', b'') \<Rightarrow> (e @ e', b'')))"
  by (induction xs arbitrary: b) (auto split: prod.splits)

lemma buffer_run_snoc_snd:
  "snd (buffer_run (xs @ [x]) b) = snd (buffer_step x (snd (buffer_run xs b)))"
  by (auto simp: buffer_run_append split: prod.splits)

lemma buffer_run_snoc_fst:
  "fst (buffer_run (xs @ [x]) b) = fst (buffer_run xs b) @ fst (buffer_step x (snd (buffer_run xs b)))"
  by (auto simp: buffer_run_append split: prod.splits)

lemma buffer_step_ordered: "ordered_inv b \<Longrightarrow> ordered_inv (snd (buffer_step x b))"
proof (cases x)
  case (Add now a i f)
  assume "ordered_inv b"
  then show ?thesis using Add addAudioChunk_ordered by simp
next
  case Drain
  assume "ordered_inv b"
  then show ?thesis using Drain processReadyChunks_ordered[of b]
    by (metis buffer_step.simps(2) prod.collapse)
next
  case Reset
  show ?thesis using Reset
    by (simp add: resetBuffer_def ordered_inv_def released_below_def)
qed

lemma buffer_step_natural:
  "natural_queue b \<Longrightarrow> natural_op x \<Longrightarrow> natural_queue (snd (buffer_step x b))"
proof (cases x)
  case (Add now a i f)
  assume "natural_queue b" "natural_op x"
  then show ?thesis using Add addAudioChunk_natural by simp
next
  case Drain
  assume "natural_queue b"
  then show ?thesis using Drain processReadyChunks_natural[of b]
    by (metis buffer_step.simps(2) prod.collapse)
next
  case Reset
  show ?thesis using Reset by (simp add: resetBuffer_def natural_queue_def)
qed

lemma buffer_run_ordered: "ordered_inv b \<Longrightarrow> ordered_inv (snd (buffer_run ops b))"
proof (induction ops arbitrary: b)
  case Nil
  then show ?case by simp
next
  case (Cons x xs)
  from Cons.IH[OF buffer_step_ordered[OF Cons.prems, of x]] show ?case
    by (auto split: prod.splits)
qed

lemma buffer_run_natural:
  "natural_queue b \<Longrightarrow> list_all natural_op ops \<Longrightarrow> natural_queue (snd (buffer_run ops b))"
proof (induction ops arbitrary: b)
  case Nil
  then show ?case by simp
next
  case (Cons x xs)
  from Cons.prems have x: "natural_op x" and xs: "list_all natural_op xs" by simp_all
  from Cons.IH[OF buffer_step_natural[OF Cons.prems(1) x] xs] show ?case
    by (auto split: prod.splits)
qed

lemma new_buffer_ordered: "ordered_inv newStreamingAudioBuffer"
  by (simp add: newStreamingAudioBuffer_def ordered_inv_def released_below_def)

lemma new_buffer_natural: "natural_queue newStreamingAudioBuffer"
  by (simp add: newStreamingAudioBuffer_def natural_queue_def)

lemma processReadyChunks_next_mono:
  "nextExpectedIndex b \<le> nextExpectedIndex (snd (processReadyChunks b))"
proof -
  obtain evs b' where r: "processReadyChunks b = (evs, b')" by (metis surj_pair)
  from processReadyChunks_result[OF r] show ?thesis using r by auto
qed

lemma addAudioChunk_next_mono:
  "nextExpectedIndex b \<le> nextExpectedIndex (snd (addAudioChunk now a i f b))"
proof (cases "i \<in> processedChunks b")
  case True
  then show ?thesis by (simp add: addAudioChunk_unfold)
next
  case False
  show ?thesis
    using processReadyChunks_next_mono[of "upsert now a i f b"]
    by (simp add: addAudioChunk_snd[OF False])
qed

lemma accepted_append:
  "accepted (xs @ ys) b = accepted xs b @ accepted ys (snd (buffer_run (map add_op xs) b))"
proof (induction xs arbitrary: b)
  case Nil
  show ?case by simp
next
  case (Cons c cs)
  show ?case
  proof (cases "call_index c \<in> processedChunks b")
    case True
    then have "buffer_step (add_op c) b = ([], b)"
      by (simp add: add_op_def addAudioChunk_def)
    with True Cons.IH[of b] show ?thesis by simp
  next
    case False
    with Cons.IH[of "snd (buffer_step (add_op c) b)"] show ?thesis
      by (auto split: prod.splits)
  qed
qed

lemma accepted_subset: "set (accepted cs b) \<subseteq> set cs"
  by (induction cs arbitrary: b) auto

lemma last_flag_snoc:
  "last_flag i (calls @ [c]) = (if call_index c = i then Some (call_flag c) else last_flag i calls)"
  by (simp add: last_flag_def)

lemma segments_of_snoc:
  "segments_of i (calls @ [c])
     = (if call_index c = i then segments_of i calls @ [call_segment c] else segments_of i calls)"
  by (simp add: segments_of_def)

lemma last_flag_segments: "last_flag i calls = Some f \<Longrightarrow> segments_of i calls \<noteq> []"
  by (auto simp: last_flag_def segments_of_def Let_def split: if_splits)

lemma segments_in_calls: "segments_of i calls \<noteq> [] \<Longrightarrow> i \<in> call_index ` set calls"
  by (auto simp: segments_of_def filter_empty_conv)

lemma sorted_lt_distinct: "sorted_wrt (<) (xs :: real list) \<Longrightarrow> distinct xs"
  by (induction xs) auto

lemma appendSegment_entries:
  "distinct (map chunkIndex q) \<Longrightarrow> x \<in> set (appendSegment a i f q) \<Longrightarrow>
   (x \<in> set q \<and> chunkIndex x \<noteq> i)
   \<or> (\<exists>c\<in>set q. chunkIndex c = i \<and> x = c\<lparr>audioData := audioData c @ [a], isComplete := f\<rparr>)"
proof (induction q)
  case Nil
  then show ?case by simp
next
  case (Cons h t)
  show ?case
  proof (cases "chunkIndex h = i")
    case True
    with Cons.prems(2) consider "x = h\<lparr>audioData := audioData h @ [a], isComplete := f\<rparr>" | "x \<in> set t"
      by auto
    then show ?thesis
    proof cases
      case 1
      with True show ?thesis by simp
    next
      case 2
      then have "chunkIndex x \<in> set (map chunkIndex t)" by simp
      with Cons.prems(1) True have "chunkIndex x \<noteq> i" by auto
      with 2 show ?thesis by simp
    qed
  next
    case False
    with Cons.prems(2) consider "x = h" | "x \<in> set (appendSegment a i f t)" by auto
    then show ?thesis
    proof cases
      case 1
      with False show ?thesis by simp
    next
      case 2
      from Cons.prems(1) have "distinct (map chunkIndex t)" by simp
      from Cons.IH[OF this 2] show ?thesis by auto
    qed
  qed
qed

lemma upsert_entries:
  assumes "distinct (map chunkIndex (audioQueue b))" "x \<in> set (audioQueue (upsert now a i f b))"
  shows "(x \<in> set (audioQueue b) \<and> chunkIndex x \<noteq> i)
   \<or> (\<exists>c\<in>set (audioQueue b). chunkIndex c = i \<and> x = c\<lparr>audioData := audioData c @ [a], isComplete := f\<rparr>)
   \<or> (i \<notin> chunkIndex ` set (audioQueue b)
       \<and> x = \<lparr>audioData = [a], chunkIndex = i, timestamp = now, isComplete = f\<rparr>)"
proof (cases "list_ex (\<lambda>c. chunkIndex c = i) (audioQueue b)")
  case True
  with assms(2) have "x \<in> set (appendSegment a i f (audioQueue b))" by (simp add: upsert_def)
  from appendSegment_entries[OF assms(1) this] show ?thesis by blast
next
  case False
  then have n: "i \<notin> chunkIndex ` set (audioQueue b)" by (auto simp: list_ex_iff)
  from False assms(2) have "x \<in> insert \<lparr>audioData = [a], chunkIndex = i, timestamp = now, isComplete = f\<rparr>
                                  (set (audioQueue b))"
    using insertChunkInOrder_set[of "\<lparr>audioData = [a], chunkIndex = i, timestamp = now, isComplete = f\<rparr>" b]
    by (simp add: upsert_def)
  with n show ?thesis by auto
qed

lemma upsert_tracked:
  assumes t: "tracked A b" and o: "ordered_inv b" and i: "i \<notin> processedChunks b"
  shows "tracked (A @ [(now, a, i, f)]) (upsert now a i f b)"
proof -
  let ?c = "(now, a, i, f)"
  let ?u = "upsert now a i f b"
  have ci: "call_index ?c = i" "call_segment ?c = a" "call_flag ?c = f"
    by (simp_all add: call_index_def call_segment_def call_flag_def)
  have d: "distinct (map chunkIndex (audioQueue b))"
    using o by (simp add: ordered_inv_def sorted_lt_distinct)
  have t1: "\<forall>c\<in>set (audioQueue b). chunkIndex c \<notin> processedChunks b
          \<and> audioData c = segments_of (chunkIndex c) A
          \<and> last_flag (chunkIndex c) A = Some (isComplete c)"
    and t2: "\<forall>j. segments_of j A \<noteq> [] \<longrightarrow> j \<in> processedChunks b \<or> j \<in> chunkIndex ` set (audioQueue b)"
    and t3: "\<forall>j\<in>processedChunks b. last_flag j A = Some True"
    using t by (simp_all add: tracked_def)
  have 1: "chunkIndex x \<notin> processedChunks ?u
          \<and> audioData x = segments_of (chunkIndex x) (A @ [?c])
          \<and> last_flag (chunkIndex x) (A @ [?c]) = Some (isComplete x)"
    if x: "x \<in> set (audioQueue ?u)" for x
  proof -
    consider (old) "x \<in> set (audioQueue b)" "chunkIndex x \<noteq> i"
      | (upd) c where "c \<in> set (audioQueue b)" "chunkIndex c = i"
          "x = c\<lparr>audioData := audioData c @ [a], isComplete := f\<rparr>"
      | (new) "i \<notin> chunkIndex ` set (audioQueue b)"
          "x = \<lparr>audioData = [a], chunkIndex = i, timestamp = now, isComplete = f\<rparr>"
      using upsert_entries[OF d x] by blast
    then show ?thesis
    proof cases
      case old
      with t1 show ?thesis by (simp add: segments_of_snoc last_flag_snoc ci)
    next
      case upd
      with t1 i show ?thesis by (simp add: segments_of_snoc last_flag_snoc ci)
    next
      case new
      with t2 i have "segments_of i A = []" by blast
      with new i show ?thesis by (simp add: segments_of_snoc last_flag_snoc ci)
    qed
  qed
  have 2: "j \<in> processedChunks ?u \<or> j \<in> chunkIndex ` set (audioQueue ?u)"
    if "segments_of j (A @ [?c]) \<noteq> []" for j
  proof (cases "j = i")
    case True
    then show ?thesis unfolding upsert_indices by simp
  next
    case False
    with that have "segments_of j A \<noteq> []" by (simp add: segments_of_snoc ci)
    with t2 show ?thesis unfolding upsert_indices by auto
  qed
  have 3: "last_flag j (A @ [?c]) = Some True" if "j \<in> processedChunks ?u" for j
  proof -
    from that i have "j \<noteq> i" by auto
    with that t3 show ?thesis by (simp add: last_flag_snoc ci)
  qed
  show ?thesis unfolding tracked_def using 1 2 3 by blast
qed

lemma drain_tracked:
  assumes t: "tracked A u" and o: "ordered_inv u" and r: "processReadyChunks u = (evs, b')"
  shows "tracked A b'"
proof -
  from processReadyChunks_result[OF r] obtain k where k:
    "audioQueue b' = drop k (audioQueue u)"
    "processedChunks b' = processedChunks u \<union> real ` {nextExpectedIndex u..<nextExpectedIndex u + k}"
    "map chunkIndex (take k (audioQueue u)) = map real [nextExpectedIndex u..<nextExpectedIndex u + k]"
    "\<forall>c\<in>set (take k (audioQueue u)). isComplete c"
    by blast
  have tk: "chunkIndex ` set (take k (audioQueue u))
             = real ` {nextExpectedIndex u..<nextExpectedIndex u + k}"
    using k(3) by (metis list.set_map set_upt)
  have o': "\<forall>c\<in>set (audioQueue b'). chunkIndex c \<notin> processedChunks b'"
    using processReadyChunks_ordered[OF o r] by (simp add: ordered_inv_def)
  have t1: "\<forall>c\<in>set (audioQueue u). audioData c = segments_of (chunkIndex c) A
          \<and> last_flag (chunkIndex c) A = Some (isComplete c)"
    and t2: "\<forall>j. segments_of j A \<noteq> [] \<longrightarrow> j \<in> processedChunks u \<or> j \<in> chunkIndex ` set (audioQueue u)"
    and t3: "\<forall>j\<in>processedChunks u. last_flag j A = Some True"
    using t by (simp_all add: tracked_def)
  have 1: "chunkIndex x \<notin> processedChunks b'
          \<and> audioData x = segments_of (chunkIndex x) A
          \<and> last_flag (chunkIndex x) A = Some (isComplete x)"
    if x: "x \<in> set (audioQueue b')" for x
  proof -
    have "x \<in> set (audioQueue u)" using x unfolding k(1) by (rule in_set_dropD)
    with t1 o' x show ?thesis by blast
  qed
  have split: "x \<in> set (take k (audioQueue u)) \<or> x \<in> set (drop k (audioQueue u))"
    if "x \<in> set (audioQueue u)" for x
    using that by (metis Un_iff append_take_drop_id set_append)
  have 2: "j \<in> processedChunks b' \<or> j \<in> chunkIndex ` set (audioQueue b')"
    if "segments_of j A \<noteq> []" for j
  proof -
    from t2 that consider "j \<in> processedChunks u" | x where "x \<in> set (audioQueue u)" "chunkIndex x = j"
      by blast
    then show ?thesis
    proof cases
      case 1
      then show ?thesis unfolding k(2) by simp
    next
      case 2
      from split[OF 2(1)] show ?thesis
      proof
        assume "x \<in> set (take k (audioQueue u))"
        then have "chunkIndex x \<in> chunkIndex ` set (take k (audioQueue u))" by (rule imageI)
        then show ?thesis unfolding tk k(2) using 2(2) by simp
      next
        assume "x \<in> set (drop k (audioQueue u))"
        then have "chunkIndex x \<in> chunkIndex ` set (audioQueue b')" unfolding k(1) by (rule imageI)
        then show ?thesis using 2(2) by simp
      qed
    qed
  qed
  have 3: "last_flag j A = Some True" if "j \<in> processedChunks b'" for j
  proof -
    from that consider "j \<in> processedChunks u" | "j \<in> chunkIndex ` set (take k (audioQueue u))"
      unfolding k(2) tk by blast
    then show ?thesis
    proof cases
      case 1
      with t3 show ?thesis by blast
    next
      case 2
      then obtain x where x: "x \<in> set (take k (audioQueue u))" "chunkIndex x = j" by blast
      then have "x \<in> set (audioQueue u)" by (meson in_set_takeD)
      with t1 have "last_flag (chunkIndex x) A = Some (isComplete x)" by blast
      with x k(4) show ?thesis by simp
    qed
  qed
  show ?thesis unfolding tracked_def using 1 2 3 by blast
qed

lemma delivered_map_AudioReady:
  "delivered (map (\<lambda>c. AudioReady (g c) (h c)) xs) = map (\<lambda>c. (g c, h c)) xs"
  by (induction xs) auto

lemma drain_delivered:
  assumes t: "tracked A u" and r: "processReadyChunks u = (evs, b')"
  shows "delivered evs = map (chunk_of A) [nextExpectedIndex u..<nextExpectedIndex b']"
proof -
  from processReadyChunks_result[OF r] obtain k where k:
    "nextExpectedIndex b' = nextExpectedIndex u + k"
    "evs = map (\<lambda>c. AudioReady (concat (audioData c)) (chunkIndex c)) (take k (audioQueue u))"
    "map chunkIndex (take k (audioQueue u)) = map real [nextExpectedIndex u..<nextExpectedIndex u + k]"
    by blast
  have a: "\<forall>c\<in>set (take k (audioQueue u)). audioData c = segments_of (chunkIndex c) A"
    using t by (auto simp: tracked_def dest: in_set_takeD)
  have "delivered evs = map (\<lambda>c. (concat (audioData c), chunkIndex c)) (take k (audioQueue u))"
    unfolding k(2) by (rule delivered_map_AudioReady)
  also have "\<dots> = map (\<lambda>c. (concat (segments_of (chunkIndex c) A), chunkIndex c)) (take k (audioQueue u))"
    using a by simp
  also have "\<dots> = map (\<lambda>i. (concat (segments_of i A), i)) (map chunkIndex (take k (audioQueue u)))"
    by (simp add: comp_def)
  also have "\<dots> = map (chunk_of A) [nextExpectedIndex u..<nextExpectedIndex u + k]"
    unfolding k(3) by (simp add: comp_def chunk_of_def)
  finally show ?thesis unfolding k(1) .
qed

lemma chunk_of_snoc:
  "call_index c \<noteq> real k \<Longrightarrow> chunk_of (A @ [c]) k = chunk_of A k"
  by (simp add: chunk_of_def segments_of_snoc)

lemma adds_tracked:
  "settled (snd (buffer_run (map add_op calls) newStreamingAudioBuffer))
   \<and> tracked (accepted calls newStreamingAudioBuffer)
        (snd (buffer_run (map add_op calls) newStreamingAudioBuffer))
   \<and> delivered (fst (buffer_run (map add_op calls) newStreamingAudioBuffer))
       = map (chunk_of (accepted calls newStreamingAudioBuffer))
           [0..<nextExpectedIndex (snd (buffer_run (map add_op calls) newStreamingAudioBuffer))]"
proof (induction calls rule: rev_induct)
  case Nil
  show ?case
    by (simp add: newStreamingAudioBuffer_def settled_def tracked_def segments_of_def)
next
  case (snoc c calls)
  let ?R = "buffer_run (map add_op calls) newStreamingAudioBuffer"
  let ?b = "snd ?R"
  let ?A = "accepted calls newStreamingAudioBuffer"
  let ?R' = "buffer_run (map add_op (calls @ [c])) newStreamingAudioBuffer"
  let ?A' = "accepted (calls @ [c]) newStreamingAudioBuffer"
  obtain now a i f where c: "c = (now, a, i, f)" by (metis prod_cases4)
  have co: "add_op c = Add now a i f" "call_index c = i"
    by (simp_all add: c add_op_def call_index_def call_segment_def call_flag_def)
  from snoc.IH have st: "settled ?b" and tr: "tracked ?A ?b"
    and de: "delivered (fst ?R) = map (chunk_of ?A) [0..<nextExpectedIndex ?b]"
    by simp_all
  have ord: "ordered_inv ?b" using buffer_run_ordered[OF new_buffer_ordered] .
  have s': "snd ?R' = snd (addAudioChunk now a i f ?b)"
    by (simp add: buffer_run_snoc_snd co)
  have f': "fst ?R' = fst ?R @ fst (addAudioChunk now a i f ?b)"
    by (simp add: buffer_run_snoc_fst co)
  have A': "?A' = ?A @ (if i \<in> processedChunks ?b then [] else [c])"
    by (simp add: accepted_append co)
  show ?case
  proof (cases "i \<in> processedChunks ?b")
    case True
    then have "addAudioChunk now a i f ?b = ([], ?b)" by (simp add: addAudioChunk_def)
    with True st tr de show ?thesis unfolding s' f' A' by simp
  next
    case False
    let ?u = "upsert now a i f ?b"
    obtain evs b' where r: "processReadyChunks ?u = (evs, b')" by (metis surj_pair)
    have res: "addAudioChunk now a i f ?b
                 = (evs @ [BufferStatus (length (audioQueue b')) (nextExpectedIndex b')], b')"
      using False r by (simp add: addAudioChunk_unfold)
    have Aeq: "?A' = ?A @ [(now, a, i, f)]" using False A' c by simp
    have tu: "tracked ?A' ?u" unfolding Aeq by (rule upsert_tracked[OF tr ord False])
    have ou: "ordered_inv ?u" by (rule upsert_ordered[OF ord False])
    have 1: "settled b'" by (rule processReadyChunks_settled[OF r])
    have 2: "tracked ?A' b'" by (rule drain_tracked[OF tu ou r])
    have dn: "delivered evs = map (chunk_of ?A') [nextExpectedIndex ?b..<nextExpectedIndex b']"
      using drain_delivered[OF tu r] by simp
    have le: "nextExpectedIndex ?b \<le> nextExpectedIndex b'"
      using processReadyChunks_next_mono[of ?u] r by simp
    have p: "processedChunks ?b = real ` {0..<nextExpectedIndex ?b}"
      using ord by (simp add: ordered_inv_def released_below_def)
    have old: "map (chunk_of ?A) [0..<nextExpectedIndex ?b] = map (chunk_of ?A') [0..<nextExpectedIndex ?b]"
    proof (rule map_cong[OF refl])
      fix k assume "k \<in> set [0..<nextExpectedIndex ?b]"
      then have "real k \<in> processedChunks ?b" unfolding p by simp
      with False have "i \<noteq> real k" by auto
      then show "chunk_of ?A k = chunk_of ?A' k"
        unfolding Aeq using chunk_of_snoc[of "(now, a, i, f)" k ?A]
        by (simp add: call_index_def)
    qed
    have "delivered (fst ?R') = delivered (fst ?R) @ delivered evs"
      unfolding f' res by (simp add: delivered_append)
    also have "\<dots> = map (chunk_of ?A') ([0..<nextExpectedIndex ?b] @ [nextExpectedIndex ?b..<nextExpectedIndex b'])"
      unfolding de old dn by simp
    also have "[0..<nextExpectedIndex ?b] @ [nextExpectedIndex ?b..<nextExpectedIndex b']
                 = [0..<nextExpectedIndex b']"
      using le by (metis le0 le_Suc_ex upt_add_eq_append)
    finally have 3: "delivered (fst ?R') = map (chunk_of ?A') [0..<nextExpectedIndex b']" .
    show ?thesis unfolding s' res using 1 2 3 res s' by simp
  qed
qed

lemma front_is_expected:
  assumes "sorted_wrt (<) (map chunkIndex q)" "\<forall>c\<in>set q. m \<le> chunkIndex c"
    "c \<in> set q" "chunkIndex c = m"
  shows "\<exists>cs. q = c # cs"
proof (cases q)
  case Nil
  with assms(3) show ?thesis by simp
next
  case (Cons h t)
  have s: "\<forall>y\<in>set t. chunkIndex h < chunkIndex y"
    using assms(1) Cons by simp
  have g: "m \<le> chunkIndex h" using assms(2) Cons by simp
  have "c = h"
  proof (rule ccontr)
    assume "c \<noteq> h"
    with assms(3) Cons have "c \<in> set t" by simp
    with s have "chunkIndex h < chunkIndex c" by blast
    with g assms(4) show False by simp
  qed
  with Cons show ?thesis by simp
qed

lemma in_range_real:
  assumes "in_range n calls" "i \<in> call_index ` set calls"
  shows "\<exists>m\<le>n. i = real m"
proof -
  from assms obtain c where c: "c \<in> set calls" "call_index c = i" by blast
  with assms(1) have "natural_index i" "i \<le> real n"
    by (auto simp: in_range_def list_all_iff)
  from natural_indexD[OF this(1)] obtain m where "i = real m" ..
  with \<open>i \<le> real n\<close> show ?thesis by auto
qed

lemma completed_while_pending_iff:
  "completed_while_pending n calls
     = (\<forall>k\<le>n. last_flag (real k) (accepted calls newStreamingAudioBuffer) = Some True)"
proof -
  have "set [0..<Suc n] = {k. k \<le> n}" by auto
  then show ?thesis unfolding completed_while_pending_def list_all_iff by blast
qed

lemma released_all_iff:
  assumes ir: "in_range n calls"
  shows "(nextExpectedIndex (snd (buffer_run (map add_op calls) newStreamingAudioBuffer)) = Suc n)
         = completed_while_pending n calls"
    and "completed_while_pending n calls \<Longrightarrow>
         audioQueue (snd (buffer_run (map add_op calls) newStreamingAudioBuffer)) = []"
proof -
  let ?b = "snd (buffer_run (map add_op calls) newStreamingAudioBuffer)"
  let ?A = "accepted calls newStreamingAudioBuffer"
  have st: "settled ?b" and tr: "tracked ?A ?b" using adds_tracked[of calls] by simp_all
  have ord: "ordered_inv ?b" using buffer_run_ordered[OF new_buffer_ordered] .
  have p: "processedChunks ?b = real ` {0..<nextExpectedIndex ?b}"
    and so: "sorted_wrt (<) (map chunkIndex (audioQueue ?b))"
    using ord by (simp_all add: ordered_inv_def released_below_def)
  have t1: "\<forall>c\<in>set (audioQueue ?b). chunkIndex c \<notin> processedChunks ?b
          \<and> last_flag (chunkIndex c) ?A = Some (isComplete c)"
    and t2: "\<forall>j. segments_of j ?A \<noteq> [] \<longrightarrow> j \<in> processedChunks ?b \<or> j \<in> chunkIndex ` set (audioQueue ?b)"
    and t3: "\<forall>j\<in>processedChunks ?b. last_flag j ?A = Some True"
    using tr by (simp_all add: tracked_def)
  have known: "\<exists>m\<le>n. i = real m" if "segments_of i ?A \<noteq> []" for i
  proof -
    from segments_in_calls[OF that] obtain x where x: "x \<in> set ?A" "call_index x = i"
      by (auto simp: image_iff)
    from x(1) accepted_subset[of calls newStreamingAudioBuffer] have "x \<in> set calls" by (rule subsetD[rotated])
    with x(2) have "i \<in> call_index ` set calls" by (auto simp: image_iff)
    from in_range_real[OF ir this] show ?thesis .
  qed
  have qb: "\<exists>m\<le>n. chunkIndex c = real m \<and> nextExpectedIndex ?b \<le> m" if c: "c \<in> set (audioQueue ?b)" for c
  proof -
    from t1[rule_format, OF c] have l: "last_flag (chunkIndex c) ?A = Some (isComplete c)"
      and np: "chunkIndex c \<notin> processedChunks ?b" by simp_all
    from known[OF last_flag_segments[OF l]] obtain m where m: "m \<le> n" "chunkIndex c = real m" by blast
    from np m(2) have "nextExpectedIndex ?b \<le> m" unfolding p by simp
    with m show ?thesis by blast
  qed
  have upper: "nextExpectedIndex ?b \<le> Suc n"
  proof (rule ccontr)
    assume "\<not> nextExpectedIndex ?b \<le> Suc n"
    then have "Suc n \<in> {0..<nextExpectedIndex ?b}" by simp
    then have "real (Suc n) \<in> processedChunks ?b" unfolding p by (rule imageI)
    with t3 have "last_flag (real (Suc n)) ?A = Some True" by (rule bspec)
    from known[OF last_flag_segments[OF this]] obtain m where "m \<le> n" "real (Suc n) = real m" by blast
    then show False by simp
  qed
  have lower: "n < nextExpectedIndex ?b" if cw: "completed_while_pending n calls"
  proof (rule ccontr)
    assume "\<not> n < nextExpectedIndex ?b"
    then have i: "nextExpectedIndex ?b \<le> n" by simp
    let ?m = "nextExpectedIndex ?b"
    from cw i have l: "last_flag (real ?m) ?A = Some True"
      unfolding completed_while_pending_iff by blast
    have np: "real ?m \<notin> processedChunks ?b" unfolding p by simp
    have ne: "segments_of (real ?m) ?A \<noteq> []" by (rule last_flag_segments[OF l])
    from t2[rule_format, OF ne] np have "real ?m \<in> chunkIndex ` set (audioQueue ?b)" by simp
    then obtain c where c: "c \<in> set (audioQueue ?b)" "chunkIndex c = real ?m"
      by (auto simp: image_iff)
    from t1[rule_format, OF c(1)] l c(2) have ic: "isComplete c" by simp
    have "\<forall>x\<in>set (audioQueue ?b). real ?m \<le> chunkIndex x"
    proof
      fix x assume "x \<in> set (audioQueue ?b)"
      from qb[OF this] obtain m' where "chunkIndex x = real m'" "?m \<le> m'" by blast
      then show "real ?m \<le> chunkIndex x" by simp
    qed
    from front_is_expected[OF so this c] obtain cs where "audioQueue ?b = c # cs" ..
    with st c ic show False by (simp add: settled_def)
  qed
  show "(nextExpectedIndex ?b = Suc n) = completed_while_pending n calls"
  proof
    assume e: "nextExpectedIndex ?b = Suc n"
    have "last_flag (real k) ?A = Some True" if "k < Suc n" for k
    proof -
      from that e have "real k \<in> processedChunks ?b" unfolding p by simp
      with t3 show ?thesis by (rule bspec)
    qed
    then show "completed_while_pending n calls"
      unfolding completed_while_pending_iff by (simp add: less_Suc_eq_le)
  next
    assume "completed_while_pending n calls"
    from lower[OF this] upper show "nextExpectedIndex ?b = Suc n" by simp
  qed
  show "audioQueue ?b = []" if cw: "completed_while_pending n calls"
  proof (rule ccontr)
    assume "audioQueue ?b \<noteq> []"
    then obtain c where c: "c \<in> set (audioQueue ?b)" by (meson last_in_set)
    from qb[OF c] lower[OF cw] show False by auto
  qed
qed

lemmas buffer_eval =
  newStreamingAudioBuffer_def addAudioChunk_def insertChunkInOrder_def processReadyChunks_def
  add_op_def call_index_def call_flag_def call_segment_def Let_def resetBuffer_def

lemma find_appendSegment:
  "find (\<lambda>c. chunkIndex c = i) (appendSegment a i f q)
     = map_option (\<lambda>c. c\<lparr>audioData := audioData c @ [a], isComplete := f\<rparr>)
         (find (\<lambda>c. chunkIndex c = i) q)"
  by (induction q) auto

lemma find_append:
  "find P (xs @ ys) = (case find P xs of None \<Rightarrow> find P ys | Some x \<Rightarrow> Some x)"
  by (induction xs) auto

lemma find_insert_new:
  assumes "\<not> list_ex (\<lambda>c. chunkIndex c = chunkIndex nc) q"
  shows "find (\<lambda>c. chunkIndex c = chunkIndex nc)
           (takeWhile Q q @ nc # dropWhile Q q) = Some nc"
proof -
  have "\<forall>x\<in>set (takeWhile Q q). chunkIndex x \<noteq> chunkIndex nc"
    using assms by (auto simp: list_ex_iff dest: set_takeWhileD)
  then have "find (\<lambda>c. chunkIndex c = chunkIndex nc) (takeWhile Q q) = None"
    by (simp add: find_None_iff)
  then show ?thesis by (simp add: find_append)
qed

lemma find_none_list_ex: "(find P q = None) = (\<not> list_ex P q)"
  by (auto simp: find_None_iff list_ex_iff)

lemma upsert_first:
  "find (\<lambda>c. chunkIndex c = i) (audioQueue (upsert now a i f b))
     = Some (case find (\<lambda>c. chunkIndex c = i) (audioQueue b) of
               None \<Rightarrow> \<lparr>audioData = [a], chunkIndex = i, timestamp = now, isComplete = f\<rparr>
             | Some c \<Rightarrow> c\<lparr>audioData := audioData c @ [a], isComplete := f\<rparr>)"
proof (cases "list_ex (\<lambda>c. chunkIndex c = i) (audioQueue b)")
  case True
  then obtain c where "find (\<lambda>c. chunkIndex c = i) (audioQueue b) = Some c"
    using find_none_list_ex[of "\<lambda>c. chunkIndex c = i" "audioQueue b"] by (cases "find (\<lambda>c. chunkIndex c = i) (audioQueue b)") auto
  with True show ?thesis by (simp add: upsert_def find_appendSegment)
next
  case False
  let ?nc = "\<lparr>audioData = [a], chunkIndex = i, timestamp = now, isComplete = f\<rparr>"
  have n: "find (\<lambda>c. chunkIndex c = i) (audioQueue b) = None"
    using False find_none_list_ex[of "\<lambda>c. chunkIndex c = i" "audioQueue b"] by simp
  have "\<not> list_ex (\<lambda>c. chunkIndex c = chunkIndex ?nc) (audioQueue b)" using False by simp
  from find_insert_new[OF this, of "\<lambda>c. chunkIndex c < i"] False n show ?thesis
    by (simp add: upsert_def insertChunkInOrder_def)
qed

lemma prefix_first:
  "distinct (map chunkIndex (take k q)) \<Longrightarrow> c \<in> set (take k q) \<Longrightarrow>
   find (\<lambda>x. chunkIndex x = chunkIndex c) q = Some c"
proof (induction q arbitrary: k)
  case Nil
  then show ?case by simp
next
  case (Cons h t)
  show ?case
  proof (cases k)
    case 0
    with Cons.prems show ?thesis by simp
  next
    case (Suc j)
    show ?thesis
    proof (cases "c = h")
      case True
      then show ?thesis by simp
    next
      case False
      with Cons.prems(2) Suc have ct: "c \<in> set (take j t)" by simp
      then have "chunkIndex c \<in> set (map chunkIndex (take j t))" by simp
      with Cons.prems(1) Suc have "chunkIndex h \<noteq> chunkIndex c" by auto
      moreover from Cons.prems(1) Suc have "distinct (map chunkIndex (take j t))" by simp
      ultimately show ?thesis using Cons.IH[OF _ ct] by simp
    qed
  qed
qed

lemma appendSegment_origin:
  "x \<in> set (appendSegment a i f q) \<Longrightarrow> x \<in> set q \<or> chunkIndex x = i"
  by (induction q) (auto split: if_splits)

lemma upsert_origin:
  assumes "x \<in> set (audioQueue (upsert now a i f b))"
  shows "x \<in> set (audioQueue b) \<or> chunkIndex x = i"
proof (cases "list_ex (\<lambda>c. chunkIndex c = i) (audioQueue b)")
  case True
  with assms show ?thesis using appendSegment_origin by (simp add: upsert_def)
next
  case False
  with assms show ?thesis
    using insertChunkInOrder_set[of "\<lparr>audioData = [a], chunkIndex = i, timestamp = now, isComplete = f\<rparr>" b]
    by (auto simp: upsert_def)
qed

lemma distinct_map_real_upt: "distinct (map real [n..<m])"
  by (simp add: distinct_map inj_on_def)

lemma addAudioChunk_emits_complete:
  assumes "AudioReady x j \<in> set (fst (addAudioChunk now a i f b))"
  shows "(j = i \<longrightarrow> f \<and> x = concat (case find (\<lambda>c. chunkIndex c = i) (audioQueue b) of
                                         None \<Rightarrow> [a] | Some c \<Rightarrow> audioData c @ [a]))
     \<and> (j \<noteq> i \<longrightarrow> (\<exists>c\<in>set (audioQueue b). chunkIndex c = j \<and> isComplete c \<and> x = concat (audioData c)))"
proof (cases "i \<in> processedChunks b")
  case True
  with assms show ?thesis by (simp add: addAudioChunk_unfold)
next
  case False
  let ?u = "upsert now a i f b"
  obtain evs b' where r: "processReadyChunks ?u = (evs, b')" by (metis surj_pair)
  from processReadyChunks_result[OF r] obtain k where k:
    "evs = map (\<lambda>c. AudioReady (concat (audioData c)) (chunkIndex c)) (take k (audioQueue ?u))"
    "map chunkIndex (take k (audioQueue ?u)) = map real [nextExpectedIndex ?u..<nextExpectedIndex ?u + k]"
    "\<forall>c\<in>set (take k (audioQueue ?u)). isComplete c"
    by blast
  from assms False r have "AudioReady x j \<in> set evs"
    by (auto simp: addAudioChunk_unfold)
  with k(1) obtain c where c: "c \<in> set (take k (audioQueue ?u))" "chunkIndex c = j"
    "x = concat (audioData c)"
    by auto
  with k(3) have ic: "isComplete c" by blast
  have cu: "c \<in> set (audioQueue ?u)" using c(1) by (rule in_set_takeD)
  have d: "distinct (map chunkIndex (take k (audioQueue ?u)))"
    unfolding k(2) by (rule distinct_map_real_upt)
  have 1: "f \<and> x = concat (case find (\<lambda>c. chunkIndex c = i) (audioQueue b) of
                              None \<Rightarrow> [a] | Some c \<Rightarrow> audioData c @ [a])" if "j = i"
  proof -
    from prefix_first[OF d c(1)] that c(2)
    have "find (\<lambda>x. chunkIndex x = i) (audioQueue ?u) = Some c" by simp
    then have "c = (case find (\<lambda>c. chunkIndex c = i) (audioQueue b) of
               None \<Rightarrow> \<lparr>audioData = [a], chunkIndex = i, timestamp = now, isComplete = f\<rparr>
             | Some c \<Rightarrow> c\<lparr>audioData := audioData c @ [a], isComplete := f\<rparr>)"
      unfolding upsert_first by simp
    with ic c(3) show ?thesis by (auto split: option.splits)
  qed
  have 2: "\<exists>c\<in>set (audioQueue b). chunkIndex c = j \<and> isComplete c \<and> x = concat (audioData c)"
    if "j \<noteq> i"
    using upsert_origin[OF cu] that c ic by auto
  show ?thesis using 1 2 by blast
qed

lemma adds_released_new:
  "released (fst (buffer_run (map add_op calls) newStreamingAudioBuffer))
     = map real [0..<nextExpectedIndex (snd (buffer_run (map add_op calls) newStreamingAudioBuffer))]"
  using adds_tracked[of calls]
  by (simp add: released_delivered chunk_of_def comp_def)

lemma adds_released_iff:
  "(released (fst (buffer_run (map add_op calls) newStreamingAudioBuffer)) = map real [0..<Suc n])
   = (nextExpectedIndex (snd (buffer_run (map add_op calls) newStreamingAudioBuffer)) = Suc n)"
proof -
  have "(map real [0..<m] = map real [0..<Suc n]) = (m = Suc n)" for m
    by (metis diff_zero length_map length_upt)
  then show ?thesis unfolding adds_released_new by simp
qed

lemma addAudioChunk_processed_mono:
  "processedChunks b \<subseteq> processedChunks (snd (addAudioChunk now a i f b))"
proof (cases "i \<in> processedChunks b")
  case True
  then show ?thesis by (simp add: addAudioChunk_unfold)
next
  case False
  obtain evs b' where r: "processReadyChunks (upsert now a i f b) = (evs, b')" by (metis surj_pair)
  from processReadyChunks_result[OF r] have "processedChunks b \<subseteq> processedChunks b'" by auto
  with r show ?thesis by (simp add: addAudioChunk_snd[OF False])
qed

lemma last_flag_accepted:
  "last_flag i calls = Some True \<Longrightarrow>
   i \<in> processedChunks (snd (buffer_run (map add_op calls) b))
   \<or> last_flag i (accepted calls b) = Some True"
proof (induction calls rule: rev_induct)
  case Nil
  then show ?case by (simp add: last_flag_def)
next
  case (snoc c cs)
  let ?b = "snd (buffer_run (map add_op cs) b)"
  let ?b' = "snd (buffer_run (map add_op (cs @ [c])) b)"
  have b': "?b' = snd (addAudioChunk (fst c) (call_segment c) (call_index c) (call_flag c) ?b)"
    by (simp add: buffer_run_snoc_snd add_op_def)
  have mono: "processedChunks ?b \<subseteq> processedChunks ?b'"
    unfolding b' by (rule addAudioChunk_processed_mono)
  have acc: "accepted (cs @ [c]) b
      = accepted cs b @ (if call_index c \<in> processedChunks ?b then [] else [c])"
    by (simp add: accepted_append)
  show ?case
  proof (cases "call_index c = i")
    case True
    with snoc.prems have f: "call_flag c" by (simp add: last_flag_snoc)
    show ?thesis
    proof (cases "i \<in> processedChunks ?b")
      case True
      with mono show ?thesis by blast
    next
      case False
      with True f have "last_flag i (accepted (cs @ [c]) b) = Some True"
        unfolding acc by (simp add: last_flag_snoc)
      then show ?thesis by simp
    qed
  next
    case False
    with snoc.prems have "last_flag i cs = Some True" by (simp add: last_flag_snoc)
    from snoc.IH[OF this] show ?thesis
    proof
      assume "i \<in> processedChunks ?b"
      with mono show ?thesis by blast
    next
      assume "last_flag i (accepted cs b) = Some True"
      with False have "last_flag i (accepted (cs @ [c]) b) = Some True"
        unfolding acc by (simp add: last_flag_snoc)
      then show ?thesis by simp
    qed
  qed
qed

lemma completed_last_sufficient:
  assumes "completed_last n calls"
  shows "completed_while_pending n calls"
proof -
  let ?b = "snd (buffer_run (map add_op calls) newStreamingAudioBuffer)"
  let ?A = "accepted calls newStreamingAudioBuffer"
  have t: "\<forall>i\<in>processedChunks ?b. last_flag i ?A = Some True"
    using adds_tracked[of calls] by (simp add: tracked_def)
  have "last_flag (real k) ?A = Some True" if "k \<le> n" for k
  proof -
    from that have "k \<in> set [0..<Suc n]" by auto
    with assms have "last_flag (real k) calls = Some True"
      unfolding completed_last_def list_all_iff by blast
    from last_flag_accepted[OF this, of newStreamingAudioBuffer] t show ?thesis by blast
  qed
  then show ?thesis by (simp add: completed_while_pending_iff)
qed

text \<open>
  Claim C2 (amended). From a new buffer, after any sequence of \<open>addAudioChunk\<close> calls
  the chunks handed to \<open>onAudioReady\<close> are those of the indices 0, 1, ...,
  \<open>nextExpectedIndex - 1\<close> in this order, each once, each made of the segments of the
  calls that arrived for its index before it was released, joined in order of arrival; so
  an index is delivered only after all lower ones. If only indices 0..n occur, then
  exactly the chunks 0..n are delivered if and only if, for every index in 0..n, the last
  call for it that arrives before the index is released carries \<open>isComplete = true\<close>;
  the queue is empty then. This is the case when the last call for every index carries
  the flag. A chunk delivered during a call was complete at that moment: it is the call's
  own index, the call carries the flag and the chunk is the entry's segments followed by
  the call's; or it is an entry queued before the call with its flag set.
\<close>

theorem C2_in_order_release:
  "delivered (fst (buffer_run (map add_op calls) newStreamingAudioBuffer))
     = map (chunk_of (accepted calls newStreamingAudioBuffer))
         [0..<nextExpectedIndex (snd (buffer_run (map add_op calls) newStreamingAudioBuffer))]
   \<and> (in_range n calls \<longrightarrow>
        (released (fst (buffer_run (map add_op calls) newStreamingAudioBuffer)) = map real [0..<Suc n])
          = completed_while_pending n calls)
   \<and> (in_range n calls \<and> completed_while_pending n calls \<longrightarrow>
        delivered (fst (buffer_run (map add_op calls) newStreamingAudioBuffer))
          = map (chunk_of (accepted calls newStreamingAudioBuffer)) [0..<Suc n]
        \<and> audioQueue (snd (buffer_run (map add_op calls) newStreamingAudioBuffer)) = [])
   \<and> (completed_last n calls \<longrightarrow> completed_while_pending n calls)
   \<and> (AudioReady x j \<in> set (fst (addAudioChunk now a i f b)) \<longrightarrow>
        (j = i \<longrightarrow> f \<and> x = concat (case find (\<lambda>c. chunkIndex c = i) (audioQueue b) of
                                         None \<Rightarrow> [a] | Some c \<Rightarrow> audioData c @ [a]))
        \<and> (j \<noteq> i \<longrightarrow>
             (\<exists>c\<in>set (audioQueue b). chunkIndex c = j \<and> isComplete c \<and> x = concat (audioData c))))"
proof -
  let ?R = "buffer_run (map add_op calls) newStreamingAudioBuffer"
  have 1: "delivered (fst ?R)
     = map (chunk_of (accepted calls newStreamingAudioBuffer)) [0..<nextExpectedIndex (snd ?R)]"
    using adds_tracked[of calls] by simp
  have 2: "(released (fst ?R) = map real [0..<Suc n]) = completed_while_pending n calls"
    if "in_range n calls"
    unfolding adds_released_iff using released_all_iff(1)[OF that] .
  have 3: "delivered (fst ?R) = map (chunk_of (accepted calls newStreamingAudioBuffer)) [0..<Suc n]
        \<and> audioQueue (snd ?R) = []"
    if "in_range n calls" "completed_while_pending n calls"
    using released_all_iff[OF that(1)] that(2) 1 by simp
  have 4: "completed_while_pending n calls" if "completed_last n calls"
    using that by (rule completed_last_sufficient)
  show ?thesis
    using 1 2 3 4 addAudioChunk_emits_complete[of x j now a i f b] by blast
qed

theorem C2_in_order_release_witness:
  "in_range 2 [(7, ''b1'', 1, False), (8, ''c'', 2, True), (9, ''b2'', 1, True), (10, ''a'', 0, True)]
   \<and> completed_last 2
        [(7, ''b1'', 1, False), (8, ''c'', 2, True), (9, ''b2'', 1, True), (10, ''a'', 0, True)]
   \<and> completed_while_pending 2
        [(7, ''b1'', 1, False), (8, ''c'', 2, True), (9, ''b2'', 1, True), (10, ''a'', 0, True)]
   \<and> fst (buffer_run (map add_op
        [(7, ''b1'', 1, False), (8, ''c'', 2, True), (9, ''b2'', 1, True), (10, ''a'', 0, True)])
        newStreamingAudioBuffer)
     = [BufferStatus 1 0, BufferStatus 2 0, BufferStatus 2 0,
        AudioReady ''a'' 0, AudioReady ''b1b2'' 1, AudioReady ''c'' 2, BufferStatus 0 3]
   \<and> delivered (fst (buffer_run (map add_op
        [(7, ''b1'', 1, False), (8, ''c'', 2, True), (9, ''b2'', 1, True), (10, ''a'', 0, True)])
        newStreamingAudioBuffer)) = [(''a'', 0), (''b1b2'', 1), (''c'', 2)]
   \<and> released (fst (buffer_run (map add_op
        [(7, ''b1'', 1, False), (8, ''c'', 2, True), (9, ''b2'', 1, True), (10, ''a'', 0, True)])
        newStreamingAudioBuffer)) = map real [0..<Suc 2]
   \<and> AudioReady ''b1b2'' 1
        \<in> set (fst (addAudioChunk 10 ''a'' 0 True
             \<lparr>audioQueue = [\<lparr>audioData = [''b1'', ''b2''], chunkIndex = 1, timestamp = 7, isComplete = True\<rparr>,
                            \<lparr>audioData = [''c''], chunkIndex = 2, timestamp = 8, isComplete = True\<rparr>],
              nextExpectedIndex = 0, processedChunks = {}\<rparr>))
   \<and> in_range 1 [(1, ''a'', 0, True), (2, ''b'', 1, True), (3, ''b0'', 1, False)]
   \<and> \<not> completed_last 1 [(1, ''a'', 0, True), (2, ''b'', 1, True), (3, ''b0'', 1, False)]
   \<and> completed_while_pending 1 [(1, ''a'', 0, True), (2, ''b'', 1, True), (3, ''b0'', 1, False)]
   \<and> accepted [(1, ''a'', 0, True), (2, ''b'', 1, True), (3, ''b0'', 1, False)] newStreamingAudioBuffer
       = [(1, ''a'', 0, True), (2, ''b'', 1, True)]
   \<and> delivered (fst (buffer_run (map add_op
        [(1, ''a'', 0, True), (2, ''b'', 1, True), (3, ''b0'', 1, False)])
        newStreamingAudioBuffer)) = [(''a'', 0), (''b'', 1)]"
  using C2_in_order_release
     [where calls="[(7, ''b1'', 1, False), (8, ''c'', 2, True), (9, ''b2'', 1, True), (10, ''a'', 0, True)]"
        and n=2 and x="''b1b2''" and j=1 and now=10 and a="''a''" and i=0 and f=True
        and b="\<lparr>audioQueue = [\<lparr>audioData = [''b1'', ''b2''], chunkIndex = 1, timestamp = 7, isComplete = True\<rparr>,
                            \<lparr>audioData = [''c''], chunkIndex = 2, timestamp = 8, isComplete = True\<rparr>],
              nextExpectedIndex = 0, processedChunks = {}\<rparr>"]
  by (simp add: in_range_def natural_index_def completed_while_pending_def completed_last_def
      last_flag_def buffer_eval upt_rec)

text \<open>
  With the completing call for index 1 followed by a further segment for it that does not
  carry the flag, index 1 is never delivered although a call marked it complete.
\<close>

theorem C2_marked_once_counterexample:
  "marked_complete_once 1 [(0, ''a'', 1, True), (1, ''b'', 1, False), (2, ''c'', 0, True)]
   \<and> released (fst (buffer_run (map add_op [(0, ''a'', 1, True), (1, ''b'', 1, False), (2, ''c'', 0, True)])
        newStreamingAudioBuffer)) = [0]
   \<and> released (fst (buffer_run (map add_op [(0, ''a'', 1, True), (1, ''b'', 1, False), (2, ''c'', 0, True)])
        newStreamingAudioBuffer)) \<noteq> [0, 1]"
  by (simp add: marked_complete_once_def in_range_def natural_index_def buffer_eval upt_rec)

lemma adds_released_processed:
  "set (released (fst (buffer_run (map add_op calls) newStreamingAudioBuffer)))
     = processedChunks (snd (buffer_run (map add_op calls) newStreamingAudioBuffer))"
proof -
  have "ordered_inv (snd (buffer_run (map add_op calls) newStreamingAudioBuffer))"
    using buffer_run_ordered[OF new_buffer_ordered] .
  then show ?thesis
    unfolding adds_released_new by (simp add: ordered_inv_def released_below_def)
qed

lemma addAudioChunk_processed_noop:
  "i \<in> processedChunks b \<Longrightarrow> addAudioChunk now a i f b = ([], b)"
  by (simp add: addAudioChunk_def)

lemma addAudioChunk_processed_funpow:
  "i \<in> processedChunks b \<Longrightarrow> ((\<lambda>s. snd (addAudioChunk now a i f s)) ^^ k) b = b"
  by (induction k) (simp_all add: addAudioChunk_processed_noop)

text \<open>
  Claim C7. A call for an index in \<open>processedChunks\<close> delivers no event and returns the
  buffer unchanged, however often it is repeated; and in every run of calls from a new
  buffer the indices in \<open>processedChunks\<close> are exactly the ones delivered so far.
\<close>

theorem C7_released_index_noop:
  assumes "i \<in> processedChunks b"
  shows "addAudioChunk now a i f b = ([], b)
     \<and> ((\<lambda>s. snd (addAudioChunk now a i f s)) ^^ k) b = b
     \<and> set (released (fst (buffer_run (map add_op calls) newStreamingAudioBuffer)))
         = processedChunks (snd (buffer_run (map add_op calls) newStreamingAudioBuffer))"
  using assms addAudioChunk_processed_noop addAudioChunk_processed_funpow adds_released_processed
  by simp

theorem C7_released_index_noop_witness:
  "0 \<in> processedChunks (snd (addAudioChunk 5 ''a'' 0 True newStreamingAudioBuffer))
   \<and> fst (addAudioChunk 5 ''a'' 0 True newStreamingAudioBuffer) = [AudioReady ''a'' 0, BufferStatus 0 1]
   \<and> addAudioChunk 6 ''a'' 0 True (snd (addAudioChunk 5 ''a'' 0 True newStreamingAudioBuffer))
       = ([], snd (addAudioChunk 5 ''a'' 0 True newStreamingAudioBuffer))
   \<and> ((\<lambda>s. snd (addAudioChunk 6 ''a'' 0 True s)) ^^ 3) (snd (addAudioChunk 5 ''a'' 0 True newStreamingAudioBuffer))
       = snd (addAudioChunk 5 ''a'' 0 True newStreamingAudioBuffer)"
proof -
  have h: "0 \<in> processedChunks (snd (addAudioChunk 5 ''a'' 0 True newStreamingAudioBuffer))"
    by (simp add: buffer_eval)
  have e: "fst (addAudioChunk 5 ''a'' 0 True newStreamingAudioBuffer) = [AudioReady ''a'' 0, BufferStatus 0 1]"
    by (simp add: buffer_eval)
  from C7_released_index_noop [OF h, of 6 "''a''" True 3 "[]"] h e show ?thesis by simp
qed

lemma ordered_below: "ordered_inv b \<Longrightarrow> released_below b"
  by (simp add: ordered_inv_def)

lemma buffer_step_inv:
  "buffer_inv b \<Longrightarrow> natural_op x \<Longrightarrow> buffer_inv (snd (buffer_step x b))"
  using buffer_step_ordered[of b x] buffer_step_natural[of b x] by (simp add: buffer_inv_def)

lemma buffer_run_inv:
  "buffer_inv b \<Longrightarrow> list_all natural_op ops \<Longrightarrow> buffer_inv (snd (buffer_run ops b))"
  using buffer_run_ordered[of b ops] buffer_run_natural[of b ops] by (simp add: buffer_inv_def)

lemma new_buffer_inv: "buffer_inv newStreamingAudioBuffer"
  using new_buffer_ordered new_buffer_natural by (simp add: buffer_inv_def)

text \<open>
  Claim C9 (amended). After any sequence of \<open>addAudioChunk\<close> calls, drains and resets
  from a new buffer in which every index passed is a non-negative integer,
  \<open>processedChunks\<close> is \<open>{0, ..., nextExpectedIndex - 1}\<close> and every queued entry has an
  index of at least \<open>nextExpectedIndex\<close>; together with the strict order of the queue
  this is preserved by a call with such an index, by a drain and by \<open>reset\<close>. Whatever
  the indices are, \<open>processedChunks\<close> is \<open>{0, ..., nextExpectedIndex - 1}\<close>, the queue is
  strictly ascending and holds no released index, and \<open>nextExpectedIndex\<close> never
  decreases under \<open>addAudioChunk\<close> or a drain; \<open>reset\<close> sets it to 0.
\<close>

theorem C9_released_prefix_invariant:
  "(list_all natural_op ops \<longrightarrow>
      released_prefix_inv (snd (buffer_run ops newStreamingAudioBuffer)))
   \<and> released_below (snd (buffer_run ops newStreamingAudioBuffer))
   \<and> (buffer_inv b \<longrightarrow>
        released_prefix_inv b
        \<and> (natural_index i \<longrightarrow> buffer_inv (snd (addAudioChunk now a i f b)))
        \<and> buffer_inv (snd (processReadyChunks b))
        \<and> buffer_inv (resetBuffer b))
   \<and> (ordered_inv b \<longrightarrow>
        released_below b
        \<and> ordered_inv (snd (addAudioChunk now a i f b))
        \<and> ordered_inv (snd (processReadyChunks b))
        \<and> ordered_inv (resetBuffer b))
   \<and> nextExpectedIndex b \<le> nextExpectedIndex (snd (addAudioChunk now a i f b))
   \<and> nextExpectedIndex b \<le> nextExpectedIndex (snd (processReadyChunks b))
   \<and> nextExpectedIndex (resetBuffer b) = 0"
proof -
  have 1: "released_prefix_inv (snd (buffer_run ops newStreamingAudioBuffer))"
    if "list_all natural_op ops"
    using buffer_run_inv[OF new_buffer_inv that] by (rule buffer_inv_prefix)
  have 2: "released_below (snd (buffer_run ops newStreamingAudioBuffer))"
    using buffer_run_ordered[OF new_buffer_ordered, of ops] by (rule ordered_below)
  have 3: "released_prefix_inv b" "buffer_inv (snd (processReadyChunks b))"
      "buffer_inv (resetBuffer b)" if "buffer_inv b"
    using buffer_inv_prefix[OF that] buffer_step_inv[OF that, of Drain]
      buffer_step_inv[OF that, of Reset] by simp_all
  have 4: "buffer_inv (snd (addAudioChunk now a i f b))" if "buffer_inv b" "natural_index i"
    using buffer_step_inv[OF that(1), of "Add now a i f"] that(2) by simp
  have 5: "released_below b" "ordered_inv (snd (addAudioChunk now a i f b))"
      "ordered_inv (snd (processReadyChunks b))" "ordered_inv (resetBuffer b)" if "ordered_inv b"
    using ordered_below[OF that] buffer_step_ordered[OF that, of "Add now a i f"]
      buffer_step_ordered[OF that, of Drain] buffer_step_ordered[OF that, of Reset] by simp_all
  have 6: "nextExpectedIndex b \<le> nextExpectedIndex (snd (addAudioChunk now a i f b))"
    by (rule addAudioChunk_next_mono)
  have 7: "nextExpectedIndex b \<le> nextExpectedIndex (snd (processReadyChunks b))"
    by (rule processReadyChunks_next_mono)
  have 8: "nextExpectedIndex (resetBuffer b) = 0" by (simp add: resetBuffer_def)
  show ?thesis using 1 2 3 4 5 6 7 8 by blast
qed

theorem C9_released_prefix_invariant_witness:
  "list_all natural_op [Add 1 ''x'' 2 True, Add 2 ''y'' 0 True, Drain, Add 3 ''z'' 0 True]
   \<and> released_prefix_inv (snd (buffer_run [Add 1 ''x'' 2 True, Add 2 ''y'' 0 True, Drain, Add 3 ''z'' 0 True]
      newStreamingAudioBuffer))
   \<and> snd (buffer_run [Add 1 ''x'' 2 True, Add 2 ''y'' 0 True, Drain, Add 3 ''z'' 0 True] newStreamingAudioBuffer)
      = \<lparr>audioQueue = [\<lparr>audioData = [''x''], chunkIndex = 2, timestamp = 1, isComplete = True\<rparr>],
         nextExpectedIndex = 1, processedChunks = {0}\<rparr>
   \<and> buffer_inv newStreamingAudioBuffer
   \<and> ordered_inv newStreamingAudioBuffer
   \<and> natural_index 2
   \<and> buffer_inv (snd (addAudioChunk 1 ''x'' 2 True newStreamingAudioBuffer))
   \<and> released_below (snd (addAudioChunk 1 ''n'' (- 1) True newStreamingAudioBuffer))
   \<and> nextExpectedIndex (snd (buffer_run [Add 1 ''x'' 2 True, Add 2 ''y'' 0 True, Reset] newStreamingAudioBuffer)) = 0"
  using C9_released_prefix_invariant
          [of "[Add 1 ''x'' 2 True, Add 2 ''y'' 0 True, Drain, Add 3 ''z'' 0 True]"
              newStreamingAudioBuffer 2 1 "''x''" True]
        new_buffer_inv new_buffer_ordered
  by (simp add: buffer_eval natural_index_def released_below_def)

text \<open>
  A call with index -1 on a new buffer queues an entry below \<open>nextExpectedIndex\<close>. The
  entry stays at the head of the queue, where the drain waits for index 0: complete
  chunks 0 and 1 that arrive afterwards are not delivered.
\<close>

theorem C9_negative_index_counterexample:
  "released_prefix_inv newStreamingAudioBuffer
   \<and> snd (addAudioChunk 1 ''n'' (- 1) True newStreamingAudioBuffer)
       = \<lparr>audioQueue = [\<lparr>audioData = [''n''], chunkIndex = - 1, timestamp = 1, isComplete = True\<rparr>],
          nextExpectedIndex = 0, processedChunks = {}\<rparr>
   \<and> \<not> released_prefix_inv (snd (addAudioChunk 1 ''n'' (- 1) True newStreamingAudioBuffer))
   \<and> released (fst (buffer_run [Add 1 ''n'' (- 1) True, Add 2 ''a'' 0 True, Add 3 ''b'' 1 True]
                       newStreamingAudioBuffer)) = []"
  by (simp add: buffer_eval released_prefix_inv_def)

lemma appendSegment_at:
  "\<forall>x\<in>set xs. chunkIndex x \<noteq> i \<Longrightarrow> chunkIndex c = i \<Longrightarrow>
   appendSegment a i f (xs @ c # ys) = xs @ c\<lparr>audioData := audioData c @ [a], isComplete := f\<rparr> # ys"
  by (induction xs) auto

lemma processReadyChunks_settled_noop:
  "settled b \<Longrightarrow> processReadyChunks b = ([], b)"
  by (cases "audioQueue b") (auto simp: settled_def processReadyChunks_def)

text \<open>
  Claim C10. For a pending index (not released, with an entry \<open>c\<close> in the queue) a call
  appends its segment to the entry and overwrites the flag with the call's, whatever the
  entry held, before the drain runs. With the flag false on a buffer whose head was not
  ready nothing is delivered and the entry stays queued as incomplete. In the example
  runs a segment delivered twice appears twice in the released chunk, and a complete
  chunk re-marked incomplete is held back when its turn comes.
\<close>

theorem C10_pending_append_overwrite:
  assumes "i \<notin> processedChunks b" and "audioQueue b = xs @ c # ys"
    and "chunkIndex c = i" and "\<forall>x\<in>set xs. chunkIndex x \<noteq> i"
  shows "addAudioChunk now a i f b =
           (case processReadyChunks
                   (b\<lparr>audioQueue := xs @ c\<lparr>audioData := audioData c @ [a], isComplete := f\<rparr> # ys\<rparr>) of
              (evs, b2) \<Rightarrow> (evs @ [BufferStatus (length (audioQueue b2)) (nextExpectedIndex b2)], b2))
     \<and> (settled b \<and> \<not> f \<longrightarrow>
          addAudioChunk now a i f b =
            ([BufferStatus (length (audioQueue b)) (nextExpectedIndex b)],
             b\<lparr>audioQueue := xs @ c\<lparr>audioData := audioData c @ [a], isComplete := False\<rparr> # ys\<rparr>))"
proof -
  let ?u = "b\<lparr>audioQueue := xs @ c\<lparr>audioData := audioData c @ [a], isComplete := f\<rparr> # ys\<rparr>"
  have ex: "list_ex (\<lambda>c. chunkIndex c = i) (audioQueue b)"
    using assms(2,3) by (simp add: list_ex_iff)
  have u: "upsert now a i f b = ?u"
    using ex appendSegment_at[OF assms(4) assms(3)] assms(2) by (simp add: upsert_def)
  have 1: "addAudioChunk now a i f b =
           (case processReadyChunks ?u of
              (evs, b2) \<Rightarrow> (evs @ [BufferStatus (length (audioQueue b2)) (nextExpectedIndex b2)], b2))"
    using assms(1) u by (simp add: addAudioChunk_unfold)
  have 2: "processReadyChunks ?u = ([], ?u)" if "settled b" "\<not> f"
  proof (rule processReadyChunks_settled_noop)
    show "settled ?u"
      using that assms(2) by (cases xs) (simp_all add: settled_def)
  qed
  show ?thesis using 1 2 assms(2) by auto
qed

theorem C10_pending_append_overwrite_witness:
  "fst (buffer_run [Add 1 ''a'' 1 True, Add 2 ''a'' 1 True, Add 3 ''b'' 0 True] newStreamingAudioBuffer)
     = [BufferStatus 1 0, BufferStatus 1 0, AudioReady ''b'' 0, AudioReady ''aa'' 1, BufferStatus 0 2]
   \<and> buffer_run [Add 1 ''a'' 1 True, Add 2 ''b'' 1 False, Add 3 ''c'' 0 True] newStreamingAudioBuffer
     = ([BufferStatus 1 0, BufferStatus 1 0, AudioReady ''c'' 0, BufferStatus 1 1],
        \<lparr>audioQueue = [\<lparr>audioData = [''a'', ''b''], chunkIndex = 1, timestamp = 1, isComplete = False\<rparr>],
         nextExpectedIndex = 1, processedChunks = {0}\<rparr>)
   \<and> addAudioChunk 2 ''b'' 1 False
        \<lparr>audioQueue = [\<lparr>audioData = [''a''], chunkIndex = 1, timestamp = 1, isComplete = True\<rparr>],
         nextExpectedIndex = 0, processedChunks = {}\<rparr>
     = ([BufferStatus 1 0],
        \<lparr>audioQueue = [\<lparr>audioData = [''a'', ''b''], chunkIndex = 1, timestamp = 1, isComplete = False\<rparr>],
         nextExpectedIndex = 0, processedChunks = {}\<rparr>)"
  using C10_pending_append_overwrite
     [of 1 "\<lparr>audioQueue = [\<lparr>audioData = [''a''], chunkIndex = 1, timestamp = 1, isComplete = True\<rparr>],
             nextExpectedIndex = 0, processedChunks = {}\<rparr>"
         "[]" "\<lparr>audioData = [''a''], chunkIndex = 1, timestamp = 1, isComplete = True\<rparr>" "[]" 2 "''b''" False]
  by (simp add: buffer_eval settled_def)

section \<open>Arithmetic: rounding to binary64\<close>

text \<open>
  \<open>binary64\<close> is a rounding in the sense of \<open>rounding\<close>, and it is evaluated on a
  number between two consecutive powers of 2 by rounding the significand.
\<close>

lemma roundTiesToEven_cases:
  "roundTiesToEven y = \<lfloor>y\<rfloor> \<or> roundTiesToEven y = \<lfloor>y\<rfloor> + 1"
  by (simp add: roundTiesToEven_def Let_def)

lemma roundTiesToEven_of_int [simp]: "roundTiesToEven (of_int k) = k"
  by (simp add: roundTiesToEven_def Let_def)

lemma roundTiesToEven_mono:
  assumes "x \<le> y"
  shows "roundTiesToEven x \<le> roundTiesToEven y"
proof (cases "\<lfloor>x\<rfloor> = \<lfloor>y\<rfloor>")
  case True
  from assms have "x - of_int \<lfloor>x\<rfloor> \<le> y - of_int \<lfloor>x\<rfloor>" by simp
  with True show ?thesis by (auto simp: roundTiesToEven_def Let_def)
next
  case False
  with assms have "\<lfloor>x\<rfloor> < \<lfloor>y\<rfloor>" using floor_mono[OF assms] by simp
  then have "\<lfloor>x\<rfloor> + 1 \<le> \<lfloor>y\<rfloor>" by simp
  moreover have "roundTiesToEven x \<le> \<lfloor>x\<rfloor> + 1" using roundTiesToEven_cases[of x] by auto
  moreover have "\<lfloor>y\<rfloor> \<le> roundTiesToEven y" using roundTiesToEven_cases[of y] by auto
  ultimately show ?thesis by linarith
qed

lemma roundTiesToEven_minus: "roundTiesToEven (- x) = - roundTiesToEven x"
proof (cases "x = of_int \<lfloor>x\<rfloor>")
  case True
  then obtain k where "x = of_int k" by blast
  then show ?thesis by (simp flip: of_int_minus)
next
  case False
  then have c: "\<lceil>x\<rceil> = \<lfloor>x\<rfloor> + 1" by (simp add: ceiling_altdef)
  have f: "\<lfloor>- x\<rfloor> = - \<lfloor>x\<rfloor> - 1" using c by (simp add: floor_minus)
  show ?thesis
    unfolding roundTiesToEven_def Let_def f
    by (auto simp: algebra_simps)
qed

lemma exponent_iff:
  "0 < x \<Longrightarrow> (\<lfloor>log 2 x\<rfloor> = e) = (2 powi e \<le> x \<and> x < 2 powi (e + 1))"
proof -
  assume x: "0 < x"
  have 1: "(2::real) powr real_of_int e = 2 powi e" by (simp add: powr_real_of_int')
  have 2: "(2::real) powr real_of_int (e + 1) = 2 powi (e + 1)"
    by (rule powr_real_of_int') simp_all
  have b: "(1::real) < 2" by simp
  show ?thesis unfolding floor_log_eq_powr_iff[OF x b] 1 2 ..
qed

lemma exponent_bounds:
  "0 < x \<Longrightarrow> 2 powi \<lfloor>log 2 x\<rfloor> \<le> x \<and> x < 2 powi (\<lfloor>log 2 x\<rfloor> + 1)"
  using exponent_iff[of x "\<lfloor>log 2 x\<rfloor>"] by simp

lemma binary64_eval:
  assumes "2 powi e \<le> \<bar>x\<bar>" "\<bar>x\<bar> < 2 powi (e + 1)"
  shows "binary64 x = of_int (roundTiesToEven (x / 2 powi (e - 52))) * 2 powi (e - 52)"
proof -
  have "0 < (2::real) powi e" by (simp add: zero_less_power_int)
  with assms(1) have p: "0 < \<bar>x\<bar>" by linarith
  then have "x \<noteq> 0" by simp
  moreover have "\<lfloor>log 2 \<bar>x\<bar>\<rfloor> = e" using exponent_iff[OF p] assms by simp
  ultimately show ?thesis by (simp add: binary64_def Let_def)
qed

lemma binary64_minus: "binary64 (- x) = - binary64 x"
  by (simp add: binary64_def Let_def roundTiesToEven_minus)

lemma binary64_zero [simp]: "binary64 0 = 0"
  by (simp add: binary64_def)

lemma powi_split: "(2::real) powi e = 2 ^ 52 * 2 powi (e - 52)"
  by (simp add: power_int_diff)

lemma powi_split_Suc: "(2::real) powi (e + 1) = 2 ^ 53 * 2 powi (e - 52)"
  by (simp add: power_int_diff power_int_add)

lemma significand_bounds:
  assumes "2 powi e \<le> x" "x < 2 powi (e + 1)"
  shows "2 ^ 52 \<le> roundTiesToEven (x / 2 powi (e - 52))
     \<and> roundTiesToEven (x / 2 powi (e - 52)) \<le> 2 ^ 53"
proof -
  let ?s = "(2::real) powi (e - 52)"
  have s: "0 < ?s" by (simp add: zero_less_power_int)
  have "2 ^ 52 * ?s \<le> x" using assms(1) powi_split[of e] by simp
  then have lo: "real_of_int (2 ^ 52) \<le> x / ?s" using s by (simp add: pos_le_divide_eq)
  have "x \<le> 2 ^ 53 * ?s" using assms(2) powi_split_Suc[of e] by simp
  then have hi: "x / ?s \<le> real_of_int (2 ^ 53)" using s by (simp add: pos_divide_le_eq)
  from roundTiesToEven_mono[OF lo] roundTiesToEven_mono[OF hi]
  show ?thesis unfolding roundTiesToEven_of_int by simp
qed

lemma binary64_bounds:
  assumes "2 powi e \<le> x" "x < 2 powi (e + 1)"
  shows "2 powi e \<le> binary64 x \<and> binary64 x \<le> 2 powi (e + 1)"
proof -
  let ?s = "(2::real) powi (e - 52)"
  let ?k = "roundTiesToEven (x / ?s)"
  have s: "0 < ?s" by (simp add: zero_less_power_int)
  have "0 < (2::real) powi e" by (simp add: zero_less_power_int)
  with assms(1) have x: "0 < x" by linarith
  then have ax: "\<bar>x\<bar> = x" by simp
  have b: "binary64 x = of_int ?k * ?s"
    using binary64_eval[of e x] assms ax by simp
  from significand_bounds[OF assms] have k: "2 ^ 52 \<le> ?k" "?k \<le> 2 ^ 53" by simp_all
  from k(1) have "(2::real) ^ 52 \<le> of_int ?k" by (metis of_int_le_iff of_int_numeral of_int_power)
  then have lo: "2 ^ 52 * ?s \<le> of_int ?k * ?s" using s by (simp add: mult_right_mono)
  from k(2) have "of_int ?k \<le> (2::real) ^ 53" by (metis of_int_le_iff of_int_numeral of_int_power)
  then have hi: "of_int ?k * ?s \<le> 2 ^ 53 * ?s" using s by (simp add: mult_right_mono)
  show ?thesis unfolding b powi_split[of e] powi_split_Suc[of e] using lo hi by simp
qed

lemma binary64_pos: "0 < x \<Longrightarrow> 0 < binary64 x"
proof -
  assume x: "0 < x"
  from exponent_bounds[OF x] binary64_bounds[of "\<lfloor>log 2 x\<rfloor>" x]
  have "2 powi \<lfloor>log 2 x\<rfloor> \<le> binary64 x" by simp
  moreover have "0 < (2::real) powi \<lfloor>log 2 x\<rfloor>" by (simp add: zero_less_power_int)
  ultimately show ?thesis by linarith
qed

lemma binary64_mono_pos:
  assumes "0 < x" "x \<le> y"
  shows "binary64 x \<le> binary64 y"
proof -
  let ?ex = "\<lfloor>log 2 x\<rfloor>" and ?ey = "\<lfloor>log 2 y\<rfloor>"
  from assms have y: "0 < y" by simp
  note bx = exponent_bounds[OF assms(1)] and bnd = exponent_bounds[OF y]
  have "log 2 x \<le> log 2 y" using assms y by simp
  then have le: "?ex \<le> ?ey" by (rule floor_mono)
  show ?thesis
  proof (cases "?ex = ?ey")
    case True
    let ?s = "(2::real) powi (?ex - 52)"
    have s: "0 < ?s" by (simp add: zero_less_power_int)
    have 1: "binary64 x = of_int (roundTiesToEven (x / ?s)) * ?s"
      using binary64_eval[of ?ex x] bx assms(1) by simp
    have 2: "binary64 y = of_int (roundTiesToEven (y / ?s)) * ?s"
      using binary64_eval[of ?ex y] bnd y True by simp
    have "x / ?s \<le> y / ?s" using assms(2) s by (simp add: divide_right_mono)
    from roundTiesToEven_mono[OF this]
    have "real_of_int (roundTiesToEven (x / ?s)) \<le> real_of_int (roundTiesToEven (y / ?s))" by simp
    then show ?thesis unfolding 1 2 using s by (simp add: mult_right_mono)
  next
    case False
    with le have "?ex + 1 \<le> ?ey" by simp
    then have "(2::real) powi (?ex + 1) \<le> 2 powi ?ey" by (rule power_int_increasing) simp
    moreover have "binary64 x \<le> 2 powi (?ex + 1)" using binary64_bounds[of ?ex x] bx by simp
    moreover have "2 powi ?ey \<le> binary64 y" using binary64_bounds[of ?ey y] bnd by simp
    ultimately show ?thesis by linarith
  qed
qed

lemma binary64_mono: "x \<le> y \<Longrightarrow> binary64 x \<le> binary64 y"
proof -
  assume le: "x \<le> y"
  consider (pos) "0 < x" | (zero) "x = 0" | (neg) "x < 0" by linarith
  then show ?thesis
  proof cases
    case pos
    then show ?thesis using le by (rule binary64_mono_pos)
  next
    case zero
    show ?thesis
    proof (cases "y = 0")
      case True
      with zero show ?thesis by simp
    next
      case False
      with le zero have "0 < y" by simp
      from binary64_pos[OF this] zero show ?thesis by simp
    qed
  next
    case neg
    then have nx: "0 < binary64 (- x)" by (simp add: binary64_pos)
    then have bx: "binary64 x < 0" by (simp add: binary64_minus)
    consider (ypos) "0 < y" | (yzero) "y = 0" | (yneg) "y < 0" by linarith
    then show ?thesis
    proof cases
      case ypos
      from binary64_pos[OF this] bx show ?thesis by simp
    next
      case yzero
      with bx show ?thesis by simp
    next
      case yneg
      then have "0 < - y" "- y \<le> - x" using le by simp_all
      from binary64_mono_pos[OF this] show ?thesis by (simp add: binary64_minus)
    qed
  qed
qed

lemma binary64_idem_pos:
  assumes "0 < x"
  shows "binary64 (binary64 x) = binary64 x"
proof -
  let ?e = "\<lfloor>log 2 x\<rfloor>"
  let ?s = "(2::real) powi (?e - 52)"
  let ?k = "roundTiesToEven (x / ?s)"
  have s: "0 < ?s" by (simp add: zero_less_power_int)
  note bx = exponent_bounds[OF assms]
  have b: "binary64 x = of_int ?k * ?s"
    using binary64_eval[of ?e x] bx assms by simp
  from significand_bounds[of ?e x] bx have k: "2 ^ 52 \<le> ?k" "?k \<le> 2 ^ 53" by simp_all
  from binary64_bounds[of ?e x] bx
  have lo: "2 powi ?e \<le> binary64 x" and hi: "binary64 x \<le> 2 powi (?e + 1)" by simp_all
  from binary64_pos[OF assms] have ab: "\<bar>binary64 x\<bar> = binary64 x" by simp
  show ?thesis
  proof (cases "?k = 2 ^ 53")
    case False
    with k(2) have "?k < 2 ^ 53" by simp
    then have "of_int ?k < (2::real) ^ 53" by (metis of_int_less_iff of_int_numeral of_int_power)
    then have "of_int ?k * ?s < 2 ^ 53 * ?s" using s by simp
    then have lt: "binary64 x < 2 powi (?e + 1)" unfolding b powi_split_Suc[of ?e] .
    have q: "binary64 x / ?s = of_int ?k" unfolding b using s by simp
    from binary64_eval[of ?e "binary64 x"] lo lt ab
    have "binary64 (binary64 x) = of_int (roundTiesToEven (binary64 x / ?s)) * ?s" by simp
    then show ?thesis unfolding q roundTiesToEven_of_int b[symmetric] using b by simp
  next
    case True
    then have v: "binary64 x = 2 powi (?e + 1)" unfolding b powi_split_Suc[of ?e] by simp
    have lt: "(2::real) powi (?e + 1) < 2 powi (?e + 1 + 1)"
      by (rule power_int_strict_increasing) simp_all
    have q: "(2::real) powi (?e + 1) / 2 powi (?e + 1 - 52) = real_of_int (2 ^ 52)"
      using powi_split[of "?e + 1"] by (simp add: zero_less_power_int)
    from binary64_eval[of "?e + 1" "2 powi (?e + 1)"] lt
    have "binary64 (2 powi (?e + 1))
        = of_int (roundTiesToEven (2 powi (?e + 1) / 2 powi (?e + 1 - 52))) * 2 powi (?e + 1 - 52)"
      by (simp add: zero_less_power_int)
    also have "\<dots> = 2 powi (?e + 1)"
      unfolding q roundTiesToEven_of_int using powi_split[of "?e + 1"] by simp
    finally show ?thesis unfolding v .
  qed
qed

lemma binary64_idem: "binary64 (binary64 x) = binary64 x"
proof -
  consider (pos) "0 < x" | (zero) "x = 0" | (neg) "x < 0" by linarith
  then show ?thesis
  proof cases
    case pos
    then show ?thesis by (rule binary64_idem_pos)
  next
    case zero
    then show ?thesis by simp
  next
    case neg
    then have "0 < - x" by simp
    from binary64_idem_pos[OF this] show ?thesis by (simp add: binary64_minus)
  qed
qed

lemma rounding_binary64: "rounding binary64"
  by (simp add: rounding_def binary64_mono binary64_idem)

text \<open>Values used in the examples below.\<close>

lemma binary64_tenth: "binary64 (1 / 10) = 3602879701896397 / 36028797018963968"
  using binary64_eval[of "- 4" "1 / 10"] by (simp add: roundTiesToEven_def Let_def)

lemma binary64_half: "binary64 (1 / 2) = 1 / 2"
  using binary64_eval[of "- 1" "1 / 2"] by (simp add: roundTiesToEven_def Let_def)

lemma binary64_t0:
  "binary64 (22481969339833517 / 144115188075855872) = 5620492334958379 / 36028797018963968"
  using binary64_eval[of "- 3" "22481969339833517 / 144115188075855872"]
  by (simp add: roundTiesToEven_def Let_def)

lemma binary64_t1:
  "binary64 (23634890844440363 / 36028797018963968) = 5908722711110091 / 9007199254740992"
  using binary64_eval[of "- 1" "23634890844440363 / 36028797018963968"]
  by (simp add: roundTiesToEven_def Let_def)

lemma binary64_t2:
  "binary64 (10412322338480587 / 9007199254740992) = 2603080584620147 / 2251799813685248"
  using binary64_eval[of 0 "10412322338480587 / 9007199254740992"]
  by (simp add: roundTiesToEven_def Let_def)

lemma binary64_t3:
  "binary64 (41649289353922347 / 36028797018963968) = 5206161169240293 / 4503599627370496"
  using binary64_eval[of 0 "41649289353922347 / 36028797018963968"]
  by (simp add: roundTiesToEven_def Let_def)

lemma binary64_clock_fix:
  "binary64 (8070450532247929 / 144115188075855872) = 8070450532247929 / 144115188075855872"
  using binary64_eval[of "- 5" "8070450532247929 / 144115188075855872"]
  by (simp add: roundTiesToEven_def Let_def)

lemma binary64_sums:
  "(8070450532247929 / 144115188075855872 + 3602879701896397 / 36028797018963968 :: real)
     = 22481969339833517 / 144115188075855872"
  "(5620492334958379 / 36028797018963968 + 1 / 2 :: real) = 23634890844440363 / 36028797018963968"
  "(5908722711110091 / 9007199254740992 + 1 / 2 :: real) = 10412322338480587 / 9007199254740992"
  "(5620492334958379 / 36028797018963968 + 1 :: real) = 41649289353922347 / 36028797018963968"
  by simp_all

lemma binary64_clock: "binary64 (7 / 125) = 8070450532247929 / 144115188075855872"
  using binary64_eval[of "- 5" "7 / 125"] by (simp add: roundTiesToEven_def Let_def)

lemma binary64_tenth_fix:
  "binary64 (3602879701896397 / 36028797018963968) = 3602879701896397 / 36028797018963968"
  using binary64_eval[of "- 4" "3602879701896397 / 36028797018963968"]
  by (simp add: roundTiesToEven_def Let_def)

lemma binary64_d3: "binary64 (1 / 16000) = 1152921504606847 / 18446744073709551616"
  using binary64_eval[of "- 14" "1 / 16000"] by (simp add: roundTiesToEven_def Let_def)

lemma binary64_c1:
  "binary64 (1845827328875562111 / 18446744073709551616) = 1802565750855041 / 18014398509481984"
  using binary64_eval[of "- 4" "1845827328875562111 / 18446744073709551616"]
  by (simp add: roundTiesToEven_def Let_def)

lemma binary64_c2:
  "binary64 (1846980250380168831 / 18446744073709551616) = 3607383301523767 / 36028797018963968"
  using binary64_eval[of "- 4" "1846980250380168831 / 18446744073709551616"]
  by (simp add: roundTiesToEven_def Let_def)

lemma binary64_three: "binary64 3 = 3"
  using binary64_eval[of 1 3] by (simp add: roundTiesToEven_def Let_def)

lemma binary64_s1:
  "binary64 (75660473739824333 / 36028797018963968) = 4728779608739021 / 2251799813685248"
  using binary64_eval[of 1 "75660473739824333 / 36028797018963968"]
  by (simp add: roundTiesToEven_def Let_def)

lemma binary64_s2:
  "binary64 (225179981368525 / 2251799813685248) = 225179981368525 / 2251799813685248"
  using binary64_eval[of "- 4" "225179981368525 / 2251799813685248"]
  by (simp add: roundTiesToEven_def Let_def)

lemma binary64_s3:
  "binary64 (28147497671065625 / 281474976710656) = 3518437208883203 / 35184372088832"
  using binary64_eval[of 6 "28147497671065625 / 281474976710656"]
  by (simp add: roundTiesToEven_def Let_def)

lemmas binary64_values =
  binary64_tenth binary64_tenth_fix binary64_d3 binary64_c1 binary64_c2 binary64_three
  binary64_s1 binary64_s2 binary64_s3 binary64_half

section \<open>Playback scheduler: timeline, cancellation, overflow, failures\<close>

lemma starts_append: "starts rnd (xs @ ys) = starts rnd xs @ starts rnd ys"
  by (induction rnd xs rule: starts.induct) auto

lemma gapless_append:
  "gapless rnd c (xs @ ys) = (gapless rnd c xs \<and> gapless rnd (cursorAfter rnd c xs) ys)"
  by (induction xs arbitrary: c) auto

lemma cursorAfter_append:
  "cursorAfter rnd c (xs @ ys) = cursorAfter rnd (cursorAfter rnd c xs) ys"
  by (induction xs arbitrary: c) auto

lemma gapless_nth:
  "gapless rnd c xs \<Longrightarrow> Suc k < length xs \<Longrightarrow>
   fst (xs ! Suc k) = rnd (fst (xs ! k) + snd (xs ! k))"
proof (induction xs arbitrary: c k)
  case Nil
  then show ?case by simp
next
  case (Cons x xs)
  show ?case
  proof (cases k)
    case 0
    with Cons.prems show ?thesis by (cases xs) auto
  next
    case (Suc j)
    with Cons.prems Cons.IH[of "rnd (c + snd x)" j] show ?thesis by simp
  qed
qed

lemma gapless_hd: "gapless rnd c xs \<Longrightarrow> xs \<noteq> [] \<Longrightarrow> fst (hd xs) = c"
  by (cases xs) auto

lemma gapless_end:
  "gapless rnd c xs \<Longrightarrow> xs \<noteq> [] \<Longrightarrow> cursorAfter rnd c xs = endOfLast rnd xs"
proof (induction xs arbitrary: c)
  case Nil
  then show ?case by simp
next
  case (Cons x xs)
  show ?case
  proof (cases xs)
    case Nil
    with Cons.prems show ?thesis by (simp add: endOfLast_def)
  next
    case (Cons y ys)
    with Cons.prems Cons.IH[of "rnd (c + snd x)"] show ?thesis by (simp add: endOfLast_def)
  qed
qed

lemma chained_seq:
  assumes "chained rnd c (e1, s1)" "chained rnd (nextStartTime s1) (e2, s2)"
  shows "chained rnd c (e1 @ e2, s2)"
  using assms by (simp add: chained_def starts_append gapless_append cursorAfter_append)

lemma chained_silent:
  "starts rnd e = [] \<Longrightarrow> nextStartTime s' = c \<Longrightarrow> chained rnd c (e, s')"
  by (simp add: chained_def)

lemma scheduleLoop_chained: "chained rnd (nextStartTime s) (scheduleLoop rnd q s)"
proof (induction q arbitrary: s)
  case Nil
  show ?case by (simp add: chained_def)
next
  case (Cons b q)
  let ?s' = "s\<lparr>bufferQueue := q, nextStartTime := rnd (nextStartTime s + duration rnd b),
               scheduledSources := scheduledSources s @ [\<lparr>nodeId = nodesCreated s, buffer = b\<rparr>],
               totalChunksPlayed := Suc (totalChunksPlayed s),
               nodesCreated := Suc (nodesCreated s)\<rparr>"
  obtain evs s'' where r: "scheduleLoop rnd q ?s' = (evs, s'')" by (metis surj_pair)
  from Cons.IH[of ?s'] r have "chained rnd (nextStartTime ?s') (evs, s'')" by simp
  then show ?case using r
    by (simp add: chained_def Let_def)
qed

lemma scheduleLoop_frame:
  "isPlaying (snd (scheduleLoop rnd q s)) = isPlaying s
   \<and> currentTime (snd (scheduleLoop rnd q s)) = currentTime s
   \<and> contextState (snd (scheduleLoop rnd q s)) = contextState s
   \<and> totalChunksReceived (snd (scheduleLoop rnd q s)) = totalChunksReceived s
   \<and> audioDataChunks (snd (scheduleLoop rnd q s)) = audioDataChunks s
   \<and> bufferQueue (snd (scheduleLoop rnd q s)) = (if q = [] then bufferQueue s else [])
   \<and> map buffer (scheduledSources (snd (scheduleLoop rnd q s))) = map buffer (scheduledSources s) @ q
   \<and> map snd (starts rnd (fst (scheduleLoop rnd q s))) = map (duration rnd) q"
proof (induction q arbitrary: s)
  case Nil
  show ?case by simp
next
  case (Cons b q)
  let ?s' = "s\<lparr>bufferQueue := q, nextStartTime := rnd (nextStartTime s + duration rnd b),
               scheduledSources := scheduledSources s @ [\<lparr>nodeId = nodesCreated s, buffer = b\<rparr>],
               totalChunksPlayed := Suc (totalChunksPlayed s),
               nodesCreated := Suc (nodesCreated s)\<rparr>"
  obtain evs s'' where r: "scheduleLoop rnd q ?s' = (evs, s'')" by (metis surj_pair)
  from Cons.IH[of ?s'] r show ?case
    by (simp add: Let_def)
qed

lemma scheduleChunks_chained: "chained rnd (nextStartTime s) (scheduleChunks rnd s)"
proof -
  obtain evs s' where r: "scheduleLoop rnd (bufferQueue s) s = (evs, s')" by (metis surj_pair)
  from scheduleLoop_chained[of rnd s "bufferQueue s"] r show ?thesis
    by (simp add: scheduleChunks_def chained_def starts_append)
qed

lemma scheduleChunks_frame:
  "isPlaying (snd (scheduleChunks rnd s)) = isPlaying s
   \<and> currentTime (snd (scheduleChunks rnd s)) = currentTime s
   \<and> contextState (snd (scheduleChunks rnd s)) = contextState s
   \<and> totalChunksReceived (snd (scheduleChunks rnd s)) = totalChunksReceived s
   \<and> audioDataChunks (snd (scheduleChunks rnd s)) = audioDataChunks s
   \<and> bufferQueue (snd (scheduleChunks rnd s)) = []
   \<and> map buffer (scheduledSources (snd (scheduleChunks rnd s)))
       = map buffer (scheduledSources s) @ bufferQueue s
   \<and> map snd (starts rnd (fst (scheduleChunks rnd s))) = map (duration rnd) (bufferQueue s)"
proof -
  obtain evs s' where r: "scheduleLoop rnd (bufferQueue s) s = (evs, s')" by (metis surj_pair)
  from scheduleLoop_frame[of rnd "bufferQueue s" s] r show ?thesis
    by (simp add: scheduleChunks_def starts_append)
qed

lemma continuePlayback_anchored: "anchored rnd s (continuePlayback rnd s)"
proof -
  let ?s2 = "if nextStartTime s \<le> currentTime s
             then s\<lparr>isPlaying := True, nextStartTime := rnd (currentTime s + BUFFER_AHEAD_TIME rnd)\<rparr>
             else s\<lparr>isPlaying := True\<rparr>"
  obtain evs s3 where r: "scheduleChunks rnd ?s2 = (evs, s3)" by (metis surj_pair)
  have c: "continuePlayback rnd s = (PlaybackStateChange True # evs, s3)"
    using r by (cases "nextStartTime s \<le> currentTime s") (simp_all add: continuePlayback_def Let_def)
  from scheduleChunks_chained[of rnd ?s2] r
  have "chained rnd (nextStartTime ?s2) (PlaybackStateChange True # evs, s3)"
    by (simp add: chained_def)
  then show ?thesis unfolding c anchored_def by (auto split: if_splits)
qed

lemma anchored_silent:
  "starts rnd e = [] \<Longrightarrow> nextStartTime s' = nextStartTime s \<Longrightarrow> anchored rnd s (e, s')"
  by (simp add: anchored_def chained_def)

lemma anchored_events:
  "anchored rnd s (e, s') \<Longrightarrow> starts rnd e' = starts rnd e \<Longrightarrow> anchored rnd s (e', s')"
  by (simp add: anchored_def chained_def)

lemma anchored_same:
  "anchored rnd s r \<Longrightarrow> nextStartTime s0 = nextStartTime s \<Longrightarrow> currentTime s0 = currentTime s
   \<Longrightarrow> anchored rnd s0 r"
  by (simp add: anchored_def)

lemma startPlayback_anchored: "anchored rnd s (startPlayback rnd s)"
  using continuePlayback_anchored[of rnd s]
  by (simp add: startPlayback_def anchored_silent)

lemma queued_fields [simp]:
  "nextStartTime (queued b s) = nextStartTime s"
  "currentTime (queued b s) = currentTime s"
  "isPlaying (queued b s) = isPlaying s"
  "contextState (queued b s) = contextState s"
  "scheduledSources (queued b s) = scheduledSources s"
  by (simp_all add: queued_def Let_def)

lemma enqueueDecoded_unfold:
  "enqueueDecoded rnd b s =
     (let evs = (if length (bufferQueue s) \<ge> MAX_BUFFER_SIZE then [Log LogBufferFull] else [])
                @ [Log (LogQueueSize (length (bufferQueue (queued b s))) (totalChunksReceived (queued b s)))]
      in if \<not> isPlaying s
         then (case startPlayback rnd (queued b s) of (evs', s3) \<Rightarrow> (evs @ Log LogStartingPlayback # evs', s3))
         else (case scheduleChunks rnd (queued b s) of (evs', s3) \<Rightarrow> (evs @ evs', s3)))"
  by (simp add: enqueueDecoded_def queued_def Let_def)

lemma enqueueDecoded_anchored: "anchored rnd s (enqueueDecoded rnd b s)"
proof -
  let ?q = "queued b s"
  obtain e1 s1 where 1: "startPlayback rnd ?q = (e1, s1)" by (metis surj_pair)
  obtain e2 s2 where 2: "scheduleChunks rnd ?q = (e2, s2)" by (metis surj_pair)
  have a1: "anchored rnd s (e1, s1)"
    using startPlayback_anchored[of rnd ?q] 1 by (simp add: anchored_same)
  have "chained rnd (nextStartTime ?q) (e2, s2)"
    using scheduleChunks_chained[of rnd ?q] 2 by simp
  then have a2: "anchored rnd s (e2, s2)" by (simp add: anchored_def)
  show ?thesis
  proof (cases "isPlaying s")
    case True
    with 2 have "\<exists>e. enqueueDecoded rnd b s = (e, s2) \<and> starts rnd e = starts rnd e2"
      by (simp add: enqueueDecoded_unfold Let_def starts_append)
    with a2 show ?thesis using anchored_events by metis
  next
    case False
    with 1 have "\<exists>e. enqueueDecoded rnd b s = (e, s1) \<and> starts rnd e = starts rnd e1"
      by (simp add: enqueueDecoded_unfold Let_def starts_append)
    with a1 show ?thesis using anchored_events by metis
  qed
qed

lemma enqueueBody_failure:
  assumes "enqueueBody rnd p isPCM s = (Some e, evs, s')"
  shows "evs = [Log (LogChunkReceived (length p) isPCM)]
     \<and> (s' = s \<or> (\<exists>bytes. atob p = Inr bytes \<and> s' = s\<lparr>audioDataChunks := audioDataChunks s @ [bytes]\<rparr>))
     \<and> (atob p = Inl e \<or> (\<exists>bytes. atob p = Inr bytes \<and> isPCM \<and> decodePCM bytes = Inl e))"
  using assms
  by (auto simp: enqueueBody_def Let_def split: sum.splits if_splits prod.splits)

lemma enqueueBody_success:
  assumes "enqueueBody rnd p isPCM s = (None, evs, s')"
  shows "\<exists>bytes. atob p = Inr bytes \<and>
     (if isPCM
      then \<exists>b. decodePCM bytes = Inr b
             \<and> s' = snd (enqueueDecoded rnd b (s\<lparr>audioDataChunks := audioDataChunks s @ [bytes]\<rparr>))
             \<and> starts rnd evs = starts rnd (fst (enqueueDecoded rnd b (s\<lparr>audioDataChunks := audioDataChunks s @ [bytes]\<rparr>)))
      else s' = s\<lparr>audioDataChunks := audioDataChunks s @ [bytes]\<rparr> \<and> starts rnd evs = [])"
  using assms
  by (auto simp: enqueueBody_def Let_def split: sum.splits if_splits prod.splits)

lemma enqueue_cases:
  "enqueue rnd p isPCM s = ([], s)
   \<or> (\<exists>e evs s'. enqueueBody rnd p isPCM s = (Some e, evs, s')
        \<and> enqueue rnd p isPCM s = (evs @ [Log (LogDecodeError e), ConsoleError e], s'))
   \<or> (\<exists>evs s'. enqueueBody rnd p isPCM s = (None, evs, s') \<and> enqueue rnd p isPCM s = (evs, s'))"
proof (cases "p = []")
  case True
  then show ?thesis by (simp add: enqueue_def)
next
  case False
  obtain r evs s' where b: "enqueueBody rnd p isPCM s = (r, evs, s')" by (metis prod_cases3)
  show ?thesis using False b by (cases r) (simp_all add: enqueue_def)
qed

lemma enqueue_anchored: "anchored rnd s (enqueue rnd p isPCM s)"
proof -
  consider (empty) "enqueue rnd p isPCM s = ([], s)"
    | (fail) e evs s' where "enqueueBody rnd p isPCM s = (Some e, evs, s')"
        "enqueue rnd p isPCM s = (evs @ [Log (LogDecodeError e), ConsoleError e], s')"
    | (ok) evs s' where "enqueueBody rnd p isPCM s = (None, evs, s')" "enqueue rnd p isPCM s = (evs, s')"
    using enqueue_cases[of rnd p isPCM s] by blast
  then show ?thesis
  proof cases
    case empty
    then show ?thesis by (simp add: anchored_silent)
  next
    case fail
    from enqueueBody_failure[OF fail(1)] have "starts rnd evs = []" "nextStartTime s' = nextStartTime s"
      by auto
    with fail(2) show ?thesis by (simp add: anchored_silent starts_append)
  next
    case ok
    from enqueueBody_success[OF ok(1)] obtain bytes where bytes: "atob p = Inr bytes"
      and r: "if isPCM
      then \<exists>b. decodePCM bytes = Inr b
             \<and> s' = snd (enqueueDecoded rnd b (s\<lparr>audioDataChunks := audioDataChunks s @ [bytes]\<rparr>))
             \<and> starts rnd evs = starts rnd (fst (enqueueDecoded rnd b (s\<lparr>audioDataChunks := audioDataChunks s @ [bytes]\<rparr>)))
      else s' = s\<lparr>audioDataChunks := audioDataChunks s @ [bytes]\<rparr> \<and> starts rnd evs = []"
      by blast
    show ?thesis
    proof (cases isPCM)
      case True
      let ?s1 = "s\<lparr>audioDataChunks := audioDataChunks s @ [bytes]\<rparr>"
      from r True obtain b where b: "s' = snd (enqueueDecoded rnd b ?s1)"
        "starts rnd evs = starts rnd (fst (enqueueDecoded rnd b ?s1))" by auto
      have "anchored rnd ?s1 (enqueueDecoded rnd b ?s1)" by (rule enqueueDecoded_anchored)
      then have "anchored rnd s (fst (enqueueDecoded rnd b ?s1), snd (enqueueDecoded rnd b ?s1))"
        by (simp add: anchored_same)
      from anchored_events[OF this, of evs] b ok(2) show ?thesis by simp
    next
      case False
      with r ok(2) show ?thesis by (simp add: anchored_silent)
    qed
  qed
qed

lemma run_append:
  "run rnd (xs @ ys) s =
     (case run rnd xs s of (e, s') \<Rightarrow> (case run rnd ys s' of (e', s'') \<Rightarrow> (e @ e', s'')))"
  by (induction xs arbitrary: s) (auto split: prod.splits)

lemma decodeResolved_anchored: "anchored rnd s (decodeResolved rnd b s)"
proof -
  obtain e s' where r: "enqueueDecoded rnd b s = (e, s')" by (metis surj_pair)
  from enqueueDecoded_anchored[of rnd s b] r have "anchored rnd s (e, s')" by simp
  from anchored_events[OF this] r show ?thesis by (simp add: decodeResolved_def)
qed

lemma contextResumed_anchored: "anchored rnd s (contextResumed rnd s)"
proof -
  let ?s = "s\<lparr>contextState := Running\<rparr>"
  obtain e s' where r: "continuePlayback rnd ?s = (e, s')" by (metis surj_pair)
  from continuePlayback_anchored[of rnd ?s] r have "anchored rnd s (e, s')"
    by (simp add: anchored_same)
  from anchored_events[OF this] r show ?thesis by (simp add: contextResumed_def)
qed

lemma sourceEnded_silent:
  "starts rnd (fst (sourceEnded src s)) = []
   \<and> nextStartTime (snd (sourceEnded src s)) = nextStartTime s
   \<and> currentTime (snd (sourceEnded src s)) = currentTime s
   \<and> bufferQueue (snd (sourceEnded src s)) = bufferQueue s"
  by (simp add: sourceEnded_def Let_def)

lemma step_anchored:
  "x \<noteq> Stop \<Longrightarrow> x \<noteq> ResetSession \<Longrightarrow> anchored rnd s (step rnd x s)"
proof (cases x)
  case (Enqueue p isPCM)
  then show ?thesis using enqueue_anchored by simp
next
  case (DecodeResolved b)
  then show ?thesis using decodeResolved_anchored by simp
next
  case (DecodeRejected e)
  then show ?thesis by (simp add: decodeRejected_def anchored_silent)
next
  case ContextResumed
  then show ?thesis using contextResumed_anchored by simp
next
  case (Ended src)
  then show ?thesis using sourceEnded_silent[of rnd src s]
    by (simp add: anchored_def chained_def)
next
  case (Advance dt)
  then show ?thesis by (simp add: advance_def anchored_silent)
qed simp_all

lemma run_punctual:
  assumes "punctual rnd e ops s"
    and "case e of None \<Rightarrow> True | Some t \<Rightarrow> nextStartTime s = t \<or> t \<le> currentTime s"
  shows "gapless rnd (case e of None \<Rightarrow> fst (hd (starts rnd (fst (run rnd ops s)))) | Some t \<Rightarrow> t)
           (starts rnd (fst (run rnd ops s)))"
  using assms
proof (induction ops arbitrary: e s)
  case Nil
  show ?case by simp
next
  case (Cons x xs)
  obtain e1 s1 where 1: "step rnd x s = (e1, s1)" by (metis surj_pair)
  obtain e2 s2 where 2: "run rnd xs s1 = (e2, s2)" by (metis surj_pair)
  have r: "starts rnd (fst (run rnd (x # xs) s)) = starts rnd e1 @ starts rnd e2"
    using 1 2 by (simp add: starts_append)
  from Cons.prems(1) have x: "x \<noteq> Stop" "x \<noteq> ResetSession"
    and clock: "currentTime s \<le> currentTime s1"
    using 1 by simp_all
  from step_anchored[OF x, of rnd s] 1 have a: "anchored rnd s (e1, s1)" by simp
  show ?case
  proof (cases "starts rnd e1 = []")
    case True
    with Cons.prems(1) 1 have p: "punctual rnd e xs s1" by simp
    from a True have c: "nextStartTime s1 = nextStartTime s
        \<or> (nextStartTime s \<le> currentTime s
            \<and> nextStartTime s1 = rnd (currentTime s + BUFFER_AHEAD_TIME rnd))"
      by (auto simp: anchored_def chained_def)
    have i: "case e of None \<Rightarrow> True | Some t \<Rightarrow> nextStartTime s1 = t \<or> t \<le> currentTime s1"
    proof (cases e)
      case None
      then show ?thesis by simp
    next
      case (Some t)
      with Cons.prems(2) have "nextStartTime s = t \<or> t \<le> currentTime s" by simp
      with c clock have "nextStartTime s1 = t \<or> t \<le> currentTime s1" by auto
      with Some show ?thesis by simp
    qed
    from Cons.IH[OF p i] 2 True show ?thesis unfolding r by (cases e) simp_all
  next
    case False
    let ?end = "endOfLast rnd (starts rnd e1)"
    from Cons.prems(1) 1 False have p: "punctual rnd (Some ?end) xs s1"
      and late: "case e of None \<Rightarrow> True | Some t \<Rightarrow> currentTime s < t"
      by simp_all
    obtain c where c: "chained rnd c (e1, s1)"
      "c = nextStartTime s \<or> nextStartTime s \<le> currentTime s"
      using a by (auto simp: anchored_def)
    then have g: "gapless rnd c (starts rnd e1)"
      and n: "nextStartTime s1 = cursorAfter rnd c (starts rnd e1)"
      by (simp_all add: chained_def)
    from gapless_end[OF g False] n have ce: "cursorAfter rnd c (starts rnd e1) = ?end"
      and n1: "nextStartTime s1 = ?end" by simp_all
    have "gapless rnd ?end (starts rnd (fst (run rnd xs s1)))"
      using Cons.IH[OF p] n1 by simp
    with 2 have g2: "gapless rnd ?end (starts rnd e2)" by simp
    have gc: "gapless rnd c (starts rnd e1 @ starts rnd e2)"
      using g g2 ce by (simp add: gapless_append)
    have hd: "fst (hd (starts rnd e1 @ starts rnd e2)) = c"
      using gapless_hd[OF g False] False by simp
    show ?thesis
    proof (cases e)
      case None
      with gc hd show ?thesis unfolding r by simp
    next
      case (Some t)
      with late have "currentTime s < t" by simp
      moreover from Some Cons.prems(2) have "nextStartTime s = t \<or> t \<le> currentTime s" by simp
      ultimately have "nextStartTime s = t" "\<not> nextStartTime s \<le> currentTime s" by auto
      with c(2) have "c = t" by auto
      with gc Some show ?thesis unfolding r by simp
    qed
  qed
qed

lemma duration_nonneg: "rounding rnd \<Longrightarrow> 0 \<le> duration rnd b"
proof -
  assume r: "rounding rnd"
  have "0 \<le> real (length (channelData b)) / real (sampleRate b)" by simp
  with r have "rnd 0 \<le> rnd (real (length (channelData b)) / real (sampleRate b))"
    unfolding rounding_def by blast
  with r show ?thesis by (simp add: duration_def rounding_def)
qed

lemma starts_durations: "(t, d) \<in> set (starts rnd evs) \<Longrightarrow> \<exists>b. d = duration rnd b"
  by (induction rnd evs rule: starts.induct) auto

lemma rounding_up:
  assumes "rounding rnd" "rnd c = c" "0 \<le> d"
  shows "c \<le> rnd (c + d)" "rnd (rnd (c + d)) = rnd (c + d)"
proof -
  from assms(3) have "c \<le> c + d" by simp
  with assms(1) have "rnd c \<le> rnd (c + d)" unfolding rounding_def by blast
  with assms(2) show "c \<le> rnd (c + d)" by simp
  from assms(1) show "rnd (rnd (c + d)) = rnd (c + d)" unfolding rounding_def by blast
qed

lemma cursorAfter_mono:
  assumes "rounding rnd"
  shows "rnd c = c \<Longrightarrow> \<forall>x\<in>set xs. 0 \<le> snd x \<Longrightarrow>
         c \<le> cursorAfter rnd c xs \<and> rnd (cursorAfter rnd c xs) = cursorAfter rnd c xs"
proof (induction xs arbitrary: c)
  case Nil
  then show ?case by simp
next
  case (Cons x xs)
  from Cons.prems have d: "0 \<le> snd x" and rest: "\<forall>y\<in>set xs. 0 \<le> snd y" by simp_all
  from rounding_up[OF assms Cons.prems(1) d]
  have 1: "c \<le> rnd (c + snd x)" and 2: "rnd (rnd (c + snd x)) = rnd (c + snd x)" .
  from Cons.IH[OF 2 rest] 1 show ?case by simp
qed

lemma BUFFER_AHEAD_TIME_nonneg: "rounding rnd \<Longrightarrow> 0 \<le> BUFFER_AHEAD_TIME rnd"
proof -
  assume r: "rounding rnd"
  then have "rnd 0 \<le> rnd (1 / 10)" unfolding rounding_def by (metis zero_le_divide_1_iff zero_le_numeral)
  with r show ?thesis by (simp add: BUFFER_AHEAD_TIME_def rounding_def)
qed

lemma continuePlayback_clock: "currentTime (snd (continuePlayback rnd s)) = currentTime s"
proof -
  let ?s2 = "if nextStartTime s \<le> currentTime s
             then s\<lparr>isPlaying := True, nextStartTime := rnd (currentTime s + BUFFER_AHEAD_TIME rnd)\<rparr>
             else s\<lparr>isPlaying := True\<rparr>"
  have "snd (continuePlayback rnd s) = snd (scheduleChunks rnd ?s2)"
    by (cases "nextStartTime s \<le> currentTime s")
       (simp_all add: continuePlayback_def Let_def split: prod.splits)
  then show ?thesis using scheduleChunks_frame[of rnd ?s2] by simp
qed

lemma enqueueDecoded_clock: "currentTime (snd (enqueueDecoded rnd b s)) = currentTime s"
  using continuePlayback_clock[of rnd "queued b s"] scheduleChunks_frame[of rnd "queued b s"]
  by (auto simp: enqueueDecoded_unfold startPlayback_def Let_def split: prod.splits)

lemma enqueue_clock: "currentTime (snd (enqueue rnd p isPCM s)) = currentTime s"
proof -
  consider (empty) "enqueue rnd p isPCM s = ([], s)"
    | (fail) e evs s' where "enqueueBody rnd p isPCM s = (Some e, evs, s')"
        "enqueue rnd p isPCM s = (evs @ [Log (LogDecodeError e), ConsoleError e], s')"
    | (ok) evs s' where "enqueueBody rnd p isPCM s = (None, evs, s')" "enqueue rnd p isPCM s = (evs, s')"
    using enqueue_cases[of rnd p isPCM s] by blast
  then show ?thesis
  proof cases
    case empty
    then show ?thesis by simp
  next
    case fail
    from enqueueBody_failure[OF fail(1)] have "currentTime s' = currentTime s" by auto
    with fail(2) show ?thesis by simp
  next
    case ok
    from enqueueBody_success[OF ok(1)] obtain bytes where
      r: "if isPCM
      then \<exists>b. decodePCM bytes = Inr b
             \<and> s' = snd (enqueueDecoded rnd b (s\<lparr>audioDataChunks := audioDataChunks s @ [bytes]\<rparr>))
             \<and> starts rnd evs = starts rnd (fst (enqueueDecoded rnd b (s\<lparr>audioDataChunks := audioDataChunks s @ [bytes]\<rparr>)))
      else s' = s\<lparr>audioDataChunks := audioDataChunks s @ [bytes]\<rparr> \<and> starts rnd evs = []"
      by blast
    show ?thesis
    proof (cases isPCM)
      case True
      let ?s1 = "s\<lparr>audioDataChunks := audioDataChunks s @ [bytes]\<rparr>"
      from r True obtain b where b: "s' = snd (enqueueDecoded rnd b ?s1)" by auto
      from enqueueDecoded_clock[of rnd b ?s1] b ok(2) show ?thesis by simp
    next
      case False
      with r ok(2) show ?thesis by simp
    qed
  qed
qed

lemma step_clock:
  "currentTime (snd (step rnd x s))
     = (case x of Advance dt \<Rightarrow> rnd (currentTime s + dt) | _ \<Rightarrow> currentTime s)"
proof (cases x)
  case (Enqueue p isPCM)
  then show ?thesis using enqueue_clock by simp
next
  case (DecodeResolved b)
  then show ?thesis using enqueueDecoded_clock[of rnd b s]
    by (auto simp: decodeResolved_def split: prod.splits)
next
  case ContextResumed
  then show ?thesis using continuePlayback_clock[of rnd "s\<lparr>contextState := Running\<rparr>"]
    by (auto simp: contextResumed_def split: prod.splits)
next
  case (Ended src)
  then show ?thesis using sourceEnded_silent[of rnd src s] by simp
qed (simp_all add: decodeRejected_def advance_def stop_def resetSession_def)

lemma step_cursor:
  assumes r: "rounding rnd" and rep: "representable rnd s"
    and x: "x \<noteq> Stop" "x \<noteq> ResetSession"
  shows "nextStartTime s \<le> nextStartTime (snd (step rnd x s))
     \<and> representable rnd (snd (step rnd x s))"
proof -
  obtain e1 s1 where 1: "step rnd x s = (e1, s1)" by (metis surj_pair)
  from step_anchored[OF x, of rnd s] 1 have a: "anchored rnd s (e1, s1)" by simp
  from rep have rc: "rnd (currentTime s) = currentTime s" and rn: "rnd (nextStartTime s) = nextStartTime s"
    by (simp_all add: representable_def)
  have clock: "rnd (currentTime s1) = currentTime s1"
  proof (cases x)
    case (Advance dt)
    with 1 r show ?thesis by (auto simp: advance_def rounding_def)
  qed (use 1 rc step_clock[of rnd x s] in simp_all)
  obtain c where c: "chained rnd c (e1, s1)"
    "c = nextStartTime s \<or> (nextStartTime s \<le> currentTime s \<and> c = rnd (currentTime s + BUFFER_AHEAD_TIME rnd))"
    using a by (auto simp: anchored_def)
  have cc: "nextStartTime s \<le> c \<and> rnd c = c"
  proof (cases "c = nextStartTime s")
    case True
    with rn show ?thesis by simp
  next
    case False
    with c(2) have le: "nextStartTime s \<le> currentTime s"
      and ce: "c = rnd (currentTime s + BUFFER_AHEAD_TIME rnd)" by auto
    from rounding_up[OF r rc BUFFER_AHEAD_TIME_nonneg[OF r]] ce le show ?thesis by simp
  qed
  have "\<forall>y\<in>set (starts rnd e1). 0 \<le> snd y"
    using starts_durations duration_nonneg[OF r] by fastforce
  from cursorAfter_mono[OF r _ this, of c] cc
  have "c \<le> cursorAfter rnd c (starts rnd e1)"
    "rnd (cursorAfter rnd c (starts rnd e1)) = cursorAfter rnd c (starts rnd e1)" by simp_all
  with c(1) cc clock 1 show ?thesis by (simp add: chained_def representable_def)
qed

lemma run_cursor:
  "rounding rnd \<Longrightarrow> representable rnd s \<Longrightarrow> no_reset ops \<Longrightarrow>
   nextStartTime s \<le> nextStartTime (snd (run rnd ops s)) \<and> representable rnd (snd (run rnd ops s))"
proof (induction ops arbitrary: s)
  case Nil
  then show ?case by simp
next
  case (Cons x xs)
  from Cons.prems(3) have x: "x \<noteq> Stop" "x \<noteq> ResetSession" and n: "no_reset xs"
    by (simp_all add: no_reset_def)
  from step_cursor[OF Cons.prems(1,2) x]
  have 1: "nextStartTime s \<le> nextStartTime (snd (step rnd x s))"
    and 2: "representable rnd (snd (step rnd x s))" by simp_all
  from Cons.IH[OF Cons.prems(1) 2 n] 1 show ?case
    by (auto split: prod.splits)
qed

lemma rounding_exact: "rounding exact"
  by (simp add: rounding_def exact_def)

lemma representable_exact: "representable exact s"
  by (simp add: representable_def exact_def)

lemma representable_new:
  "rounding rnd \<Longrightarrow> rnd t = t \<Longrightarrow> representable rnd (newWebAudioStreamer rnd t st)"
  by (simp add: representable_def newWebAudioStreamer_def rounding_def)

lemmas streamer_eval =
  newWebAudioStreamer_def enqueue_def enqueueBody_def enqueueDecoded_def decodeResolved_def
  decodeRejected_def startPlayback_def continuePlayback_def scheduleChunks_def contextResumed_def
  sourceEnded_def stop_def resetSession_def advance_def getStatus_def
  MAX_BUFFER_SIZE_def BUFFER_AHEAD_TIME_def Let_def duration_def endOfLast_def

lemmas decoder_eval =
  atob_def stripPadding_def isAsciiWhitespace_def base64Value_def decodePCM_def getInt16_def

lemma atob_ex1: "atob ''AAD/fwCA'' = Inr [0, 0, 255, 127, 0, 128]"
  by (simp add: decoder_eval)

lemma pcm_ex1:
  "decodePCM [0, 0, 255, 127, 0, 128]
     = Inr \<lparr>sampleRate = 48000, channelData = [0, 32767 / 32768, - 1]\<rparr>"
  by (simp add: decoder_eval)

lemma atob_ex2: "atob ''AAAA'' = Inr [0, 0, 0]"
  by (simp add: decoder_eval)

lemma atob_ex3: "atob ''!!!!'' = Inl InvalidCharacterError"
  by (simp add: decoder_eval)

lemma scenario_A_general:
  "starts rnd (fst (run rnd [Advance dt, DecodeResolved b1, DecodeResolved b2, DecodeResolved b3]
                      (newWebAudioStreamer rnd t Running)))
         = (let t0 = (if rnd (t + BUFFER_AHEAD_TIME rnd) \<le> rnd (t + dt)
                      then rnd (rnd (t + dt) + BUFFER_AHEAD_TIME rnd)
                      else rnd (t + BUFFER_AHEAD_TIME rnd))
            in [(t0, duration rnd b1), (rnd (t0 + duration rnd b1), duration rnd b2),
                (rnd (rnd (t0 + duration rnd b1) + duration rnd b2), duration rnd b3)])"
  by (simp add: newWebAudioStreamer_def advance_def decodeResolved_def enqueueDecoded_def
      startPlayback_def continuePlayback_def scheduleChunks_def MAX_BUFFER_SIZE_def Let_def)

lemma scenario_A:
  assumes "duration rnd b1 = 1 / 2" "duration rnd b2 = 1 / 2" "duration rnd b3 = 1 / 2"
  shows "starts rnd (fst (run rnd [Advance dt, DecodeResolved b1, DecodeResolved b2, DecodeResolved b3]
                      (newWebAudioStreamer rnd t Running)))
         = (let t0 = (if rnd (t + BUFFER_AHEAD_TIME rnd) \<le> rnd (t + dt)
                      then rnd (rnd (t + dt) + BUFFER_AHEAD_TIME rnd)
                      else rnd (t + BUFFER_AHEAD_TIME rnd))
            in [(t0, 1 / 2), (rnd (t0 + 1 / 2), 1 / 2), (rnd (rnd (t0 + 1 / 2) + 1 / 2), 1 / 2)])"
  unfolding scenario_A_general assms ..

lemma scenario_A_exact:
  assumes "duration exact b1 = 1 / 2" "duration exact b2 = 1 / 2" "duration exact b3 = 1 / 2"
  shows "starts exact (fst (run exact [Advance dt, DecodeResolved b1, DecodeResolved b2, DecodeResolved b3]
                      (newWebAudioStreamer exact t Running)))
         = (let t0 = (if 1 / 10 \<le> dt then t + dt + 1 / 10 else t + 1 / 10)
            in [(t0, 1 / 2), (t0 + 1 / 2, 1 / 2), (t0 + 1, 1 / 2)])"
  unfolding scenario_A[OF assms] by (simp add: BUFFER_AHEAD_TIME_def exact_def Let_def)

text \<open>
  Claim C1 (amended). In a run without \<open>stop\<close> or \<open>resetSession\<close> in which the clock
  never runs backwards and every operation that schedules buffers after an earlier one
  did finds the clock before the end of the last buffer scheduled so far, the start
  times handed to \<open>source.start\<close> satisfy \<open>s(k+1) = rnd (s(k) + d(k))\<close> for every
  consecutive pair: the sum the source computes, rounded once. The first start time of
  an operation is the cursor, or the clock plus the lookahead when the clock has reached
  the cursor. Three buffers of 0.5 s enqueued back to back on a streamer built at clock
  \<open>t\<close>, the first one \<open>dt\<close> later, start at \<open>t0\<close>, \<open>rnd (t0 + 0.5)\<close> and
  \<open>rnd (rnd (t0 + 0.5) + 0.5)\<close>, where \<open>t0\<close> is the constructor's cursor if the clock has
  not reached it and the clock plus the lookahead otherwise; in exact arithmetic these
  are \<open>t0\<close>, \<open>t0 + 0.5\<close> and \<open>t0 + 1\<close>.
\<close>

theorem C1_gapless_schedule:
  "(punctual rnd None ops s \<longrightarrow>
      (\<forall>k. Suc k < length (starts rnd (fst (run rnd ops s))) \<longrightarrow>
         fst (starts rnd (fst (run rnd ops s)) ! Suc k)
           = rnd (fst (starts rnd (fst (run rnd ops s)) ! k) + snd (starts rnd (fst (run rnd ops s)) ! k))))
   \<and> (x \<noteq> Stop \<and> x \<noteq> ResetSession \<longrightarrow> anchored rnd s (step rnd x s))
   \<and> (duration rnd b1 = 1 / 2 \<and> duration rnd b2 = 1 / 2 \<and> duration rnd b3 = 1 / 2 \<longrightarrow>
        starts rnd (fst (run rnd [Advance dt, DecodeResolved b1, DecodeResolved b2, DecodeResolved b3]
                     (newWebAudioStreamer rnd t Running)))
         = (let t0 = (if rnd (t + BUFFER_AHEAD_TIME rnd) \<le> rnd (t + dt)
                      then rnd (rnd (t + dt) + BUFFER_AHEAD_TIME rnd)
                      else rnd (t + BUFFER_AHEAD_TIME rnd))
            in [(t0, 1 / 2), (rnd (t0 + 1 / 2), 1 / 2), (rnd (rnd (t0 + 1 / 2) + 1 / 2), 1 / 2)]))
   \<and> (duration exact b1 = 1 / 2 \<and> duration exact b2 = 1 / 2 \<and> duration exact b3 = 1 / 2 \<longrightarrow>
        starts exact (fst (run exact [Advance dt, DecodeResolved b1, DecodeResolved b2, DecodeResolved b3]
                     (newWebAudioStreamer exact t Running)))
         = (let t0 = (if 1 / 10 \<le> dt then t + dt + 1 / 10 else t + 1 / 10)
            in [(t0, 1 / 2), (t0 + 1 / 2, 1 / 2), (t0 + 1, 1 / 2)]))"
proof -
  have 1: "fst (starts rnd (fst (run rnd ops s)) ! Suc k)
           = rnd (fst (starts rnd (fst (run rnd ops s)) ! k) + snd (starts rnd (fst (run rnd ops s)) ! k))"
    if "punctual rnd None ops s" "Suc k < length (starts rnd (fst (run rnd ops s)))" for k
    using gapless_nth[OF run_punctual[OF that(1)] that(2)] by simp
  have 2: "anchored rnd s (step rnd x s)" if "x \<noteq> Stop" "x \<noteq> ResetSession"
    using that by (rule step_anchored)
  show ?thesis
    using 1 2 scenario_A[of rnd b1 b2 b3 dt t] scenario_A_exact[of b1 b2 b3 dt t]
    by blast
qed

theorem C1_gapless_schedule_witness:
  "punctual exact None
      [Enqueue ''AAD/fwCA'' True, Advance (1 / 100000), Enqueue ''AAD/fwCA'' True,
       Ended \<lparr>nodeId = 0, buffer = \<lparr>sampleRate = 48000, channelData = [0, 32767 / 32768, - 1]\<rparr>\<rparr>,
       Enqueue ''AAD/fwCA'' True]
      (newWebAudioStreamer exact 5 Running)
   \<and> starts exact (fst (run exact
      [Enqueue ''AAD/fwCA'' True, Advance (1 / 100000), Enqueue ''AAD/fwCA'' True,
       Ended \<lparr>nodeId = 0, buffer = \<lparr>sampleRate = 48000, channelData = [0, 32767 / 32768, - 1]\<rparr>\<rparr>,
       Enqueue ''AAD/fwCA'' True]
      (newWebAudioStreamer exact 5 Running)))
       = [(51 / 10, 1 / 16000), (51 / 10 + 1 / 16000, 1 / 16000), (51 / 10 + 2 / 16000, 1 / 16000)]
   \<and> duration exact \<lparr>sampleRate = 48000, channelData = replicate 24000 0\<rparr> = 1 / 2
   \<and> starts exact (fst (run exact [Advance 0,
                        DecodeResolved \<lparr>sampleRate = 48000, channelData = replicate 24000 0\<rparr>,
                        DecodeResolved \<lparr>sampleRate = 48000, channelData = replicate 24000 0\<rparr>,
                        DecodeResolved \<lparr>sampleRate = 48000, channelData = replicate 24000 0\<rparr>]
                     (newWebAudioStreamer exact 5 Running)))
       = [(51 / 10, 1 / 2), (56 / 10, 1 / 2), (61 / 10, 1 / 2)]
   \<and> duration binary64 \<lparr>sampleRate = 48000, channelData = replicate 24000 0\<rparr> = 1 / 2
   \<and> punctual binary64 None
        [Advance 0,
         DecodeResolved \<lparr>sampleRate = 48000, channelData = replicate 24000 0\<rparr>,
         DecodeResolved \<lparr>sampleRate = 48000, channelData = replicate 24000 0\<rparr>,
         DecodeResolved \<lparr>sampleRate = 48000, channelData = replicate 24000 0\<rparr>]
        (newWebAudioStreamer binary64 (8070450532247929 / 144115188075855872) Running)
   \<and> starts binary64 (fst (run binary64
        [Advance 0,
         DecodeResolved \<lparr>sampleRate = 48000, channelData = replicate 24000 0\<rparr>,
         DecodeResolved \<lparr>sampleRate = 48000, channelData = replicate 24000 0\<rparr>,
         DecodeResolved \<lparr>sampleRate = 48000, channelData = replicate 24000 0\<rparr>]
        (newWebAudioStreamer binary64 (8070450532247929 / 144115188075855872) Running)))
       = [(5620492334958379 / 36028797018963968, 1 / 2),
          (binary64 (5620492334958379 / 36028797018963968 + 1 / 2), 1 / 2),
          (binary64 (5908722711110091 / 9007199254740992 + 1 / 2), 1 / 2)]
   \<and> punctual exact None
        [Enqueue ''AAD/fwCA'' True, Advance 2, ContextResumed, Enqueue ''AAD/fwCA'' True]
        (newWebAudioStreamer exact 0 Suspended)
   \<and> starts exact (fst (run exact
        [Enqueue ''AAD/fwCA'' True, Advance 2, ContextResumed, Enqueue ''AAD/fwCA'' True]
        (newWebAudioStreamer exact 0 Suspended)))
       = [(21 / 10, 1 / 16000), (21 / 10 + 1 / 16000, 1 / 16000)]
   \<and> punctual exact None
        [Advance 2, Enqueue ''AAD/fwCA'' True, Enqueue ''AAD/fwCA'' True]
        (newWebAudioStreamer exact 0 Running)
   \<and> starts exact (fst (run exact
        [Advance 2, Enqueue ''AAD/fwCA'' True, Enqueue ''AAD/fwCA'' True]
        (newWebAudioStreamer exact 0 Running)))
       = [(21 / 10, 1 / 16000), (21 / 10 + 1 / 16000, 1 / 16000)]"
  using C1_gapless_schedule
    [of exact
        "[Enqueue ''AAD/fwCA'' True, Advance (1 / 100000), Enqueue ''AAD/fwCA'' True,
            Ended \<lparr>nodeId = 0, buffer = \<lparr>sampleRate = 48000, channelData = [0, 32767 / 32768, - 1]\<rparr>\<rparr>,
            Enqueue ''AAD/fwCA'' True]"
        "newWebAudioStreamer exact 5 Running" "Advance 0"
        "\<lparr>sampleRate = 48000, channelData = replicate 24000 0\<rparr>"
        "\<lparr>sampleRate = 48000, channelData = replicate 24000 0\<rparr>"
        "\<lparr>sampleRate = 48000, channelData = replicate 24000 0\<rparr>" 0 5]
    C1_gapless_schedule
    [of binary64
        "[Advance 0,
          DecodeResolved \<lparr>sampleRate = 48000, channelData = replicate 24000 0\<rparr>,
          DecodeResolved \<lparr>sampleRate = 48000, channelData = replicate 24000 0\<rparr>,
          DecodeResolved \<lparr>sampleRate = 48000, channelData = replicate 24000 0\<rparr>]"
        "newWebAudioStreamer binary64 (8070450532247929 / 144115188075855872) Running" "Advance 0"
        "\<lparr>sampleRate = 48000, channelData = replicate 24000 0\<rparr>"
        "\<lparr>sampleRate = 48000, channelData = replicate 24000 0\<rparr>"
        "\<lparr>sampleRate = 48000, channelData = replicate 24000 0\<rparr>" 0
        "8070450532247929 / 144115188075855872"]
  by (simp add: streamer_eval atob_ex1 pcm_ex1 exact_def binary64_clock_fix binary64_tenth
      binary64_half binary64_t0 binary64_t1 binary64_t2)

text \<open>
  In binary64, at the clock reading 0.056, three buffers of 0.5 s enqueued back to back
  start at 0.156, 0.656 and 1.1560000000000001: the third start time is the rounded sum
  of the second and 0.5, which is neither \<open>t0 + 1\<close> nor its binary64 value 1.156.
\<close>

theorem C1_double_rounding_counterexample:
  "binary64 (7 / 125) = 8070450532247929 / 144115188075855872
   \<and> duration binary64 \<lparr>sampleRate = 48000, channelData = replicate 24000 0\<rparr> = 1 / 2
   \<and> punctual binary64 None
        [DecodeResolved \<lparr>sampleRate = 48000, channelData = replicate 24000 0\<rparr>,
         DecodeResolved \<lparr>sampleRate = 48000, channelData = replicate 24000 0\<rparr>,
         DecodeResolved \<lparr>sampleRate = 48000, channelData = replicate 24000 0\<rparr>]
        (newWebAudioStreamer binary64 (8070450532247929 / 144115188075855872) Running)
   \<and> starts binary64 (fst (run binary64
        [DecodeResolved \<lparr>sampleRate = 48000, channelData = replicate 24000 0\<rparr>,
         DecodeResolved \<lparr>sampleRate = 48000, channelData = replicate 24000 0\<rparr>,
         DecodeResolved \<lparr>sampleRate = 48000, channelData = replicate 24000 0\<rparr>]
        (newWebAudioStreamer binary64 (8070450532247929 / 144115188075855872) Running)))
       = [(5620492334958379 / 36028797018963968, 1 / 2),
          (5908722711110091 / 9007199254740992, 1 / 2),
          (2603080584620147 / 2251799813685248, 1 / 2)]
   \<and> binary64 (5620492334958379 / 36028797018963968 + 1) = 5206161169240293 / 4503599627370496
   \<and> 2603080584620147 / 2251799813685248 \<noteq> binary64 (5620492334958379 / 36028797018963968 + 1)
   \<and> (2603080584620147 / 2251799813685248 :: real) \<noteq> 5620492334958379 / 36028797018963968 + 1"
  by (simp add: streamer_eval binary64_clock binary64_tenth binary64_half binary64_t0 binary64_t1
      binary64_t2 binary64_t3)

text \<open>
  Claim C8 (amended). Along a run without \<open>stop\<close> and \<open>resetSession\<close> the cursor
  \<open>nextStartTime\<close> never decreases: for every rounding when the clock and the cursor are
  results of it, so for binary64, and for exact arithmetic. \<open>stop\<close> and \<open>resetSession\<close>
  set the cursor to the clock plus the lookahead, whatever it was.
\<close>

theorem C8_cursor_monotone_between_resets:
  "(rounding rnd \<and> representable rnd s \<and> no_reset (xs @ ys) \<longrightarrow>
      nextStartTime (snd (run rnd xs s)) \<le> nextStartTime (snd (run rnd (xs @ ys) s)))
   \<and> (representable binary64 s \<and> no_reset (xs @ ys) \<longrightarrow>
      nextStartTime (snd (run binary64 xs s)) \<le> nextStartTime (snd (run binary64 (xs @ ys) s)))
   \<and> (no_reset (xs @ ys) \<longrightarrow>
      nextStartTime (snd (run exact xs s)) \<le> nextStartTime (snd (run exact (xs @ ys) s)))
   \<and> nextStartTime (snd (stop rnd s)) = rnd (currentTime s + BUFFER_AHEAD_TIME rnd)
   \<and> nextStartTime (snd (resetSession rnd s)) = rnd (currentTime s + BUFFER_AHEAD_TIME rnd)"
proof -
  have g: "nextStartTime (snd (run r xs s)) \<le> nextStartTime (snd (run r (xs @ ys) s))"
    if "rounding r" "representable r s" "no_reset (xs @ ys)" for r
  proof -
    from that(3) have nx: "no_reset xs" and ny: "no_reset ys" by (simp_all add: no_reset_def)
    from run_cursor[OF that(1,2) nx] have "representable r (snd (run r xs s))" by simp
    from run_cursor[OF that(1) this ny] show ?thesis
      by (auto simp: run_append split: prod.splits)
  qed
  show ?thesis
    using g[of rnd] g[OF rounding_binary64] g[OF rounding_exact representable_exact]
    by (simp add: stop_def resetSession_def)
qed

theorem C8_cursor_monotone_witness:
  "rounding binary64
   \<and> representable binary64 (newWebAudioStreamer binary64 0 Running)
   \<and> no_reset ([Enqueue ''AAD/fwCA'' True, Advance 3] @ [Enqueue ''AAD/fwCA'' True])
   \<and> nextStartTime (snd (run binary64 [Enqueue ''AAD/fwCA'' True, Advance 3]
                             (newWebAudioStreamer binary64 0 Running)))
       = 1802565750855041 / 18014398509481984
   \<and> nextStartTime (snd (run binary64 ([Enqueue ''AAD/fwCA'' True, Advance 3] @ [Enqueue ''AAD/fwCA'' True])
                             (newWebAudioStreamer binary64 0 Running)))
       = 3607383301523767 / 36028797018963968
   \<and> nextStartTime (snd (run exact [Enqueue ''AAD/fwCA'' True, Advance 3] (newWebAudioStreamer exact 0 Running)))
       = 1601 / 16000
   \<and> nextStartTime (snd (run exact ([Enqueue ''AAD/fwCA'' True, Advance 3] @ [Enqueue ''AAD/fwCA'' True])
                             (newWebAudioStreamer exact 0 Running)))
       = 1602 / 16000"
  using C8_cursor_monotone_between_resets
    [of binary64 "newWebAudioStreamer binary64 0 Running"
        "[Enqueue ''AAD/fwCA'' True, Advance 3]" "[Enqueue ''AAD/fwCA'' True]"]
    rounding_binary64
  by (simp add: no_reset_def representable_def streamer_eval atob_ex1 pcm_ex1 binary64_values exact_def)

text \<open>
  After one enqueued buffer the cursor is past the lookahead offset; \<open>stop\<close> at the same
  clock reading moves it back, in binary64 as in exact arithmetic.
\<close>

theorem C8_stop_lowers_cursor_counterexample:
  "nextStartTime (snd (run binary64 [Enqueue ''AAD/fwCA'' True] (newWebAudioStreamer binary64 0 Running)))
     = 1802565750855041 / 18014398509481984
   \<and> nextStartTime (snd (run binary64 [Enqueue ''AAD/fwCA'' True, Stop] (newWebAudioStreamer binary64 0 Running)))
     = 3602879701896397 / 36028797018963968
   \<and> \<not> nextStartTime (snd (run binary64 [Enqueue ''AAD/fwCA'' True] (newWebAudioStreamer binary64 0 Running)))
         \<le> nextStartTime (snd (run binary64 [Enqueue ''AAD/fwCA'' True, Stop] (newWebAudioStreamer binary64 0 Running)))
   \<and> nextStartTime (snd (run exact [Enqueue ''AAD/fwCA'' True] (newWebAudioStreamer exact 0 Running))) = 1601 / 16000
   \<and> nextStartTime (snd (run exact [Enqueue ''AAD/fwCA'' True, Stop] (newWebAudioStreamer exact 0 Running))) = 1 / 10"
  by (simp add: streamer_eval atob_ex1 pcm_ex1 binary64_values exact_def)

text \<open>
  Claim C4. From any state \<open>stop\<close> calls \<open>stop()\<close> on every scheduled source, empties
  the pending queue and the list of sources and clears \<open>isPlaying\<close>; a later \<open>getStatus\<close>
  reports \<open>isPlaying = false\<close> and \<open>queueSize = 0\<close>. A second \<open>stop\<close> returns the same
  state and stops no source; after the clock has advanced by \<open>dt\<close> it differs only in
  the cursor, set again to the clock plus the lookahead. This holds for every rounding.
\<close>

theorem C4_stop_total_idempotent:
  "fst (stop rnd s) = Log LogStopping # map SourceStop (scheduledSources s) @ [PlaybackStateChange False]
   \<and> scheduledSources (snd (stop rnd s)) = []
   \<and> bufferQueue (snd (stop rnd s)) = []
   \<and> \<not> isPlaying (snd (stop rnd s))
   \<and> \<not> st_isPlaying (getStatus rnd (advance rnd dt (snd (stop rnd s))))
   \<and> queueSize (getStatus rnd (advance rnd dt (snd (stop rnd s)))) = 0
   \<and> stop rnd (snd (stop rnd s)) = ([Log LogStopping, PlaybackStateChange False], snd (stop rnd s))
   \<and> snd (stop rnd (advance rnd dt (snd (stop rnd s))))
       = (advance rnd dt (snd (stop rnd s)))
           \<lparr>nextStartTime := rnd (rnd (currentTime s + dt) + BUFFER_AHEAD_TIME rnd)\<rparr>"
  by (simp add: stop_def getStatus_def advance_def Let_def)

theorem C4_stop_total_idempotent_witness:
  "queueSize (getStatus binary64 scenarioC) = 5
   \<and> fst (stop binary64 scenarioC)
       = [Log LogStopping,
          SourceStop \<lparr>nodeId = 0, buffer = \<lparr>sampleRate = 48000, channelData = [1]\<rparr>\<rparr>,
          SourceStop \<lparr>nodeId = 1, buffer = \<lparr>sampleRate = 48000, channelData = [1, 1]\<rparr>\<rparr>,
          PlaybackStateChange False]
   \<and> \<not> st_isPlaying (getStatus binary64 (snd (stop binary64 scenarioC)))
   \<and> queueSize (getStatus binary64 (snd (stop binary64 scenarioC))) = 0
   \<and> snd (stop binary64 (snd (stop binary64 scenarioC))) = snd (stop binary64 scenarioC)
   \<and> nextStartTime (snd (stop binary64 scenarioC)) = 4728779608739021 / 2251799813685248
   \<and> bufferedTime (st_webAudioStats (getStatus binary64 (snd (stop binary64 scenarioC))))
       = 3518437208883203 / 35184372088832
   \<and> isHealthy (st_bufferHealth (getStatus binary64 (snd (stop binary64 scenarioC))))
   \<and> bufferedTime (st_webAudioStats (getStatus exact (snd (stop exact scenarioC)))) = 100"
  using C4_stop_total_idempotent [of binary64 scenarioC 0]
  by (simp add: scenarioC_def stop_def getStatus_def advance_def Let_def BUFFER_AHEAD_TIME_def
      binary64_values exact_def)

lemma continuePlayback_frame:
  "bufferQueue (snd (continuePlayback rnd s)) = []
   \<and> map buffer (scheduledSources (snd (continuePlayback rnd s)))
       = map buffer (scheduledSources s) @ bufferQueue s"
proof -
  let ?s2 = "if nextStartTime s \<le> currentTime s
             then s\<lparr>isPlaying := True, nextStartTime := rnd (currentTime s + BUFFER_AHEAD_TIME rnd)\<rparr>
             else s\<lparr>isPlaying := True\<rparr>"
  have "snd (continuePlayback rnd s) = snd (scheduleChunks rnd ?s2)"
    by (cases "nextStartTime s \<le> currentTime s")
       (simp_all add: continuePlayback_def Let_def split: prod.splits)
  then show ?thesis using scheduleChunks_frame[of rnd ?s2] by simp
qed

lemma startPlayback_frame:
  "bufferQueue (snd (startPlayback rnd s)) = (if contextState s = Suspended then bufferQueue s else [])
   \<and> map buffer (scheduledSources (snd (startPlayback rnd s)))
       = map buffer (scheduledSources s) @ (if contextState s = Suspended then [] else bufferQueue s)"
  using continuePlayback_frame[of rnd s] by (simp add: startPlayback_def)

lemma queued_queue:
  "bufferQueue (queued b s)
     = (if length (bufferQueue s) \<ge> MAX_BUFFER_SIZE then tl (bufferQueue s) else bufferQueue s) @ [b]"
  by (simp add: queued_def Let_def)

lemma enqueueDecoded_frame:
  "bufferQueue (snd (enqueueDecoded rnd b s))
     = (if \<not> isPlaying s \<and> contextState s = Suspended then bufferQueue (queued b s) else [])
   \<and> map buffer (scheduledSources (snd (enqueueDecoded rnd b s)))
       = map buffer (scheduledSources s)
         @ (if \<not> isPlaying s \<and> contextState s = Suspended then [] else bufferQueue (queued b s))"
  using startPlayback_frame[of rnd "queued b s"] scheduleChunks_frame[of rnd "queued b s"]
  by (auto simp: enqueueDecoded_unfold Let_def split: prod.splits)

lemma enqueueDecoded_events:
  "\<exists>evs. fst (enqueueDecoded rnd b s)
     = (if length (bufferQueue s) \<ge> MAX_BUFFER_SIZE then [Log LogBufferFull] else [])
       @ Log (LogQueueSize (length (bufferQueue (queued b s))) (Suc (totalChunksReceived s))) # evs"
  by (auto simp: enqueueDecoded_unfold queued_def Let_def split: prod.splits)

lemma enqueueDecoded_cap:
  "length (bufferQueue s) \<le> MAX_BUFFER_SIZE \<Longrightarrow>
   length (bufferQueue (snd (enqueueDecoded rnd b s))) \<le> MAX_BUFFER_SIZE"
  using enqueueDecoded_frame[of rnd b s] by (auto simp: queued_queue MAX_BUFFER_SIZE_def)

lemma enqueue_cap:
  assumes "length (bufferQueue s) \<le> MAX_BUFFER_SIZE"
  shows "length (bufferQueue (snd (enqueue rnd p isPCM s))) \<le> MAX_BUFFER_SIZE"
proof -
  consider (empty) "enqueue rnd p isPCM s = ([], s)"
    | (fail) e evs s' where "enqueueBody rnd p isPCM s = (Some e, evs, s')"
        "enqueue rnd p isPCM s = (evs @ [Log (LogDecodeError e), ConsoleError e], s')"
    | (ok) evs s' where "enqueueBody rnd p isPCM s = (None, evs, s')" "enqueue rnd p isPCM s = (evs, s')"
    using enqueue_cases[of rnd p isPCM s] by blast
  then show ?thesis
  proof cases
    case empty
    with assms show ?thesis by simp
  next
    case fail
    from enqueueBody_failure[OF fail(1)] have "bufferQueue s' = bufferQueue s" by auto
    with fail(2) assms show ?thesis by simp
  next
    case ok
    from enqueueBody_success[OF ok(1)] obtain bytes where
      r: "if isPCM
      then \<exists>b. decodePCM bytes = Inr b
             \<and> s' = snd (enqueueDecoded rnd b (s\<lparr>audioDataChunks := audioDataChunks s @ [bytes]\<rparr>))
             \<and> starts rnd evs = starts rnd (fst (enqueueDecoded rnd b (s\<lparr>audioDataChunks := audioDataChunks s @ [bytes]\<rparr>)))
      else s' = s\<lparr>audioDataChunks := audioDataChunks s @ [bytes]\<rparr> \<and> starts rnd evs = []"
      by blast
    show ?thesis
    proof (cases isPCM)
      case True
      let ?s1 = "s\<lparr>audioDataChunks := audioDataChunks s @ [bytes]\<rparr>"
      from r True obtain b where b: "s' = snd (enqueueDecoded rnd b ?s1)" by auto
      from enqueueDecoded_cap[of ?s1 rnd b] assms b ok(2) show ?thesis by simp
    next
      case False
      with r ok(2) assms show ?thesis by simp
    qed
  qed
qed

lemma step_cap:
  assumes "length (bufferQueue s) \<le> MAX_BUFFER_SIZE"
  shows "length (bufferQueue (snd (step rnd x s))) \<le> MAX_BUFFER_SIZE"
proof (cases x)
  case (Enqueue p isPCM)
  then show ?thesis using enqueue_cap[OF assms] by simp
next
  case (DecodeResolved b)
  then show ?thesis using enqueueDecoded_cap[OF assms, of rnd b]
    by (auto simp: decodeResolved_def split: prod.splits)
next
  case (DecodeRejected e)
  then show ?thesis using assms by (simp add: decodeRejected_def)
next
  case ContextResumed
  then show ?thesis using continuePlayback_frame[of rnd "s\<lparr>contextState := Running\<rparr>"]
    by (auto simp: contextResumed_def split: prod.splits)
next
  case (Ended src)
  then show ?thesis using assms sourceEnded_silent[of rnd src s] by simp
next
  case (Advance dt)
  then show ?thesis using assms by (simp add: advance_def)
next
  case Stop
  then show ?thesis by (simp add: stop_def)
next
  case ResetSession
  then show ?thesis by (simp add: resetSession_def stop_def)
qed

lemma run_cap:
  "length (bufferQueue s) \<le> MAX_BUFFER_SIZE \<Longrightarrow>
   length (bufferQueue (snd (run rnd ops s))) \<le> MAX_BUFFER_SIZE"
proof (induction ops arbitrary: s)
  case Nil
  then show ?case by simp
next
  case (Cons x xs)
  from Cons.IH[OF step_cap[OF Cons.prems, of rnd x]] show ?case
    by (auto split: prod.splits)
qed

text \<open>
  Claim C5 (amended). When a decoded buffer arrives while the pending queue holds
  \<open>MAX_BUFFER_SIZE\<close> buffers, the drop is logged, the oldest pending buffer is removed
  and never scheduled, and the new buffer is appended, so the queue holds
  \<open>MAX_BUFFER_SIZE\<close> buffers again until they are scheduled; in every run from a new
  streamer the queue never holds more. \<open>getStatus\<close> reports \<open>bufferOverflows = 0\<close> before
  and after: there is no drop counter.
\<close>

theorem C5_overflow_drops_oldest:
  assumes "length (bufferQueue s) = MAX_BUFFER_SIZE"
  shows "(\<exists>evs. fst (enqueueDecoded rnd b s)
            = Log LogBufferFull # Log (LogQueueSize MAX_BUFFER_SIZE (Suc (totalChunksReceived s))) # evs)
     \<and> bufferQueue (snd (enqueueDecoded rnd b s))
         = (if \<not> isPlaying s \<and> contextState s = Suspended then tl (bufferQueue s) @ [b] else [])
     \<and> map buffer (scheduledSources (snd (enqueueDecoded rnd b s)))
         = map buffer (scheduledSources s)
           @ (if \<not> isPlaying s \<and> contextState s = Suspended then [] else tl (bufferQueue s) @ [b])
     \<and> length (bufferQueue (snd (enqueueDecoded rnd b s))) \<le> MAX_BUFFER_SIZE
     \<and> length (bufferQueue (snd (run rnd ops (newWebAudioStreamer rnd t st)))) \<le> MAX_BUFFER_SIZE
     \<and> bufferOverflows (st_analytics (getStatus rnd s)) = 0
     \<and> bufferOverflows (st_analytics (getStatus rnd (snd (enqueueDecoded rnd b s)))) = 0"
proof -
  have q: "bufferQueue (queued b s) = tl (bufferQueue s) @ [b]"
    using assms by (simp add: queued_queue)
  have l: "length (bufferQueue (queued b s)) = MAX_BUFFER_SIZE"
    using assms unfolding q by (simp add: MAX_BUFFER_SIZE_def)
  have 1: "\<exists>evs. fst (enqueueDecoded rnd b s)
            = Log LogBufferFull # Log (LogQueueSize MAX_BUFFER_SIZE (Suc (totalChunksReceived s))) # evs"
    using enqueueDecoded_events[of rnd b s] assms l by simp
  have 2: "length (bufferQueue (snd (enqueueDecoded rnd b s))) \<le> MAX_BUFFER_SIZE"
    using enqueueDecoded_cap[of s rnd b] assms by simp
  have 3: "length (bufferQueue (snd (run rnd ops (newWebAudioStreamer rnd t st)))) \<le> MAX_BUFFER_SIZE"
    by (rule run_cap) (simp add: newWebAudioStreamer_def)
  show ?thesis
    using 1 2 3 enqueueDecoded_frame[of rnd b s] q by (simp add: getStatus_def Let_def)
qed

theorem C5_overflow_drops_oldest_witness:
  "snd (run binary64 [DecodeResolved (tone 0), DecodeResolved (tone 1), DecodeResolved (tone 2),
             DecodeResolved (tone 3), DecodeResolved (tone 4), DecodeResolved (tone 5),
             DecodeResolved (tone 6), DecodeResolved (tone 7), DecodeResolved (tone 8),
             DecodeResolved (tone 9)] (newWebAudioStreamer binary64 0 Suspended)) = fullQueue
   \<and> length (bufferQueue fullQueue) = MAX_BUFFER_SIZE
   \<and> fst (enqueueDecoded binary64 (tone 10) fullQueue)
       = [Log LogBufferFull, Log (LogQueueSize 10 11), Log LogStartingPlayback, ResumeRequested]
   \<and> bufferQueue (snd (enqueueDecoded binary64 (tone 10) fullQueue))
       = [tone 1, tone 2, tone 3, tone 4, tone 5, tone 6, tone 7, tone 8, tone 9, tone 10]"
  using C5_overflow_drops_oldest [of fullQueue binary64 "tone 10" "[]" 0 Suspended]
  by (simp add: fullQueue_def streamer_eval binary64_values)

text \<open>
  The eleventh buffer on a full queue: the drop happens and is logged, and the reported
  \<open>bufferOverflows\<close> does not move.
\<close>

theorem C5_no_drop_counter_counterexample:
  "length (bufferQueue fullQueue) = MAX_BUFFER_SIZE
   \<and> hd (fst (enqueueDecoded binary64 (tone 10) fullQueue)) = Log LogBufferFull
   \<and> hd (bufferQueue fullQueue) \<notin> set (bufferQueue (snd (enqueueDecoded binary64 (tone 10) fullQueue)))
   \<and> bufferOverflows (st_analytics (getStatus binary64 fullQueue)) = 0
   \<and> bufferOverflows (st_analytics (getStatus binary64 (snd (enqueueDecoded binary64 (tone 10) fullQueue))))
       \<noteq> bufferOverflows (st_analytics (getStatus binary64 fullQueue)) + 1"
  by (simp add: fullQueue_def tone_def streamer_eval)

lemma pcmSamples_odd: "odd (length bytes) \<Longrightarrow> pcmSamples bytes = Inl RangeError"
  by (induction bytes rule: pcmSamples.induct) auto

lemma decodePCM_odd: "odd (length bytes) \<Longrightarrow> \<exists>e. decodePCM bytes = Inl e"
  by (simp add: decodePCM_def pcmSamples_odd)

text \<open>
  Claim C6. \<open>enqueue\<close> returns in every case: with nothing done on an empty payload,
  with the error of its \<open>try\<close> block logged, or with the block's result. When the block
  throws, the call logs the chunk and the error and leaves the cursor, the pending queue,
  the scheduled sources, \<open>isPlaying\<close> and the counters as they were. Malformed base64
  throws before anything is stored; a PCM payload with an odd number of bytes throws after
  the raw bytes are stored; a rejected \<open>decodeAudioData\<close> changes nothing. This holds for
  every rounding.
\<close>

theorem C6_enqueue_absorbs_decode_failure:
  "(enqueue rnd p isPCM s = ([], s)
      \<or> (\<exists>e evs s'. enqueueBody rnd p isPCM s = (Some e, evs, s')
            \<and> enqueue rnd p isPCM s = (evs @ [Log (LogDecodeError e), ConsoleError e], s'))
      \<or> (\<exists>evs s'. enqueueBody rnd p isPCM s = (None, evs, s') \<and> enqueue rnd p isPCM s = (evs, s')))
   \<and> (p \<noteq> [] \<and> enqueueBody rnd p isPCM s = (Some e, evs, s') \<longrightarrow>
        enqueue rnd p isPCM s
          = ([Log (LogChunkReceived (length p) isPCM), Log (LogDecodeError e), ConsoleError e], s')
        \<and> nextStartTime s' = nextStartTime s
        \<and> bufferQueue s' = bufferQueue s
        \<and> scheduledSources s' = scheduledSources s
        \<and> isPlaying s' = isPlaying s
        \<and> totalChunksReceived s' = totalChunksReceived s
        \<and> totalChunksPlayed s' = totalChunksPlayed s)
   \<and> (atob p = Inl e \<longrightarrow>
        enqueueBody rnd p isPCM s = (Some e, [Log (LogChunkReceived (length p) isPCM)], s))
   \<and> (atob p = Inr bytes \<and> odd (length bytes) \<longrightarrow>
        (\<exists>e'. enqueueBody rnd p True s
                = (Some e', [Log (LogChunkReceived (length p) True)],
                   s\<lparr>audioDataChunks := audioDataChunks s @ [bytes]\<rparr>)))
   \<and> decodeRejected e s = ([Log (LogDecodeError e), ConsoleError e], s)"
proof -
  have 2: "enqueue rnd p isPCM s
          = ([Log (LogChunkReceived (length p) isPCM), Log (LogDecodeError e), ConsoleError e], s')
        \<and> nextStartTime s' = nextStartTime s
        \<and> bufferQueue s' = bufferQueue s
        \<and> scheduledSources s' = scheduledSources s
        \<and> isPlaying s' = isPlaying s
        \<and> totalChunksReceived s' = totalChunksReceived s
        \<and> totalChunksPlayed s' = totalChunksPlayed s"
    if "p \<noteq> []" "enqueueBody rnd p isPCM s = (Some e, evs, s')"
    using enqueueBody_failure[OF that(2)] that by (auto simp: enqueue_def)
  have 3: "enqueueBody rnd p isPCM s = (Some e, [Log (LogChunkReceived (length p) isPCM)], s)"
    if "atob p = Inl e"
    using that by (simp add: enqueueBody_def)
  have 4: "\<exists>e'. enqueueBody rnd p True s
                = (Some e', [Log (LogChunkReceived (length p) True)],
                   s\<lparr>audioDataChunks := audioDataChunks s @ [bytes]\<rparr>)"
    if "atob p = Inr bytes" "odd (length bytes)"
    using that decodePCM_odd[OF that(2)] by (auto simp: enqueueBody_def)
  show ?thesis
    using enqueue_cases[of rnd p isPCM s] 2 3 4 by (simp add: decodeRejected_def)
qed

theorem C6_enqueue_absorbs_decode_failure_witness:
  "atob ''!!!!'' = Inl InvalidCharacterError
   \<and> enqueue binary64 ''!!!!'' True (snd (enqueue binary64 ''AAD/fwCA'' True (newWebAudioStreamer binary64 0 Running)))
       = ([Log (LogChunkReceived 4 True), Log (LogDecodeError InvalidCharacterError),
           ConsoleError InvalidCharacterError],
          snd (enqueue binary64 ''AAD/fwCA'' True (newWebAudioStreamer binary64 0 Running)))
   \<and> atob ''AAAA'' = Inr [0, 0, 0]
   \<and> enqueue binary64 ''AAAA'' True (snd (enqueue binary64 ''AAD/fwCA'' True (newWebAudioStreamer binary64 0 Running)))
       = ([Log (LogChunkReceived 4 True), Log (LogDecodeError RangeError), ConsoleError RangeError],
          (snd (enqueue binary64 ''AAD/fwCA'' True (newWebAudioStreamer binary64 0 Running)))
            \<lparr>audioDataChunks := [[0, 0, 255, 127, 0, 128], [0, 0, 0]]\<rparr>)
   \<and> nextStartTime (snd (enqueue binary64 ''AAAA'' True
        (snd (enqueue binary64 ''AAD/fwCA'' True (newWebAudioStreamer binary64 0 Running)))))
       = 1802565750855041 / 18014398509481984"
  using C6_enqueue_absorbs_decode_failure
    [of binary64 "''AAAA''" True "snd (enqueue binary64 ''AAD/fwCA'' True (newWebAudioStreamer binary64 0 Running))"
        RangeError "[Log (LogChunkReceived 4 True)]"
        "(snd (enqueue binary64 ''AAD/fwCA'' True (newWebAudioStreamer binary64 0 Running)))
            \<lparr>audioDataChunks := [[0, 0, 255, 127, 0, 128], [0, 0, 0]]\<rparr>" "[0, 0, 0]"]
  by (simp add: streamer_eval atob_ex1 atob_ex2 atob_ex3 pcm_ex1 decodePCM_def binary64_values)

end
